theory Spec2Isabelle
  imports Main
begin

section \<open>Cubes, covers and the cube geometry\<close>

text \<open>
  A cube (\<open>pcube\<close>/\<open>pset\<close> in the source) is a bit vector over the parts
  \<open>0..cube.size-1\<close> together with flag bits. The bit vector is a set of part
  indices; the flags are a set of flag names. \<open>TESTP\<close>, \<open>SET\<close> and \<open>RESET\<close> are the
  macros of the source.
\<close>

datatype flag = PRIME | COVERED | ACTIVE | NONESSEN

record pcube =
  bits :: "nat set"
  flags :: "flag set"

definition TESTP :: "pcube \<Rightarrow> flag \<Rightarrow> bool" where
  "TESTP p f = (f \<in> flags p)"

definition SET :: "pcube \<Rightarrow> flag \<Rightarrow> pcube" where
  "SET p f = p\<lparr>flags := insert f (flags p)\<rparr>"

definition RESET :: "pcube \<Rightarrow> flag \<Rightarrow> pcube" where
  "RESET p f = p\<lparr>flags := flags p - {f}\<rparr>"

text \<open>
  A cover (\<open>pcover\<close>, a \<open>set_family\<close>): the cubes in order (\<open>count\<close> is the length
  of the list) and the cached counter \<open>active_count\<close>, which the source updates by hand
  next to every flip of an \<open>ACTIVE\<close> flag.
\<close>

record pcover =
  sets :: "pcube list"
  active_count :: int

text \<open>
  Modelled from the spec: the global cube geometry \<open>cube\<close> (declared outside
  \<open>expand.c\<close>). \<open>cube.size\<close> is the number of parts, variable \<open>v\<close> owns the contiguous
  parts \<open>first_part[v] .. last_part[v]\<close>, \<open>var_mask[v]\<close> is the set of these parts,
  \<open>fullset\<close> is the all-ones cube and \<open>output_var\<close> is \<open>cube.output\<close>, the index of the output variable.
\<close>

record cube_struct =
  cube_size :: nat
  first_part :: "nat list"
  last_part :: "nat list"
  output_var :: nat

definition num_vars :: "cube_struct \<Rightarrow> nat" where
  "num_vars g = length (first_part g)"

definition var_mask :: "cube_struct \<Rightarrow> nat \<Rightarrow> nat set" where
  "var_mask g v = {first_part g ! v .. last_part g ! v}"

definition fullset :: "cube_struct \<Rightarrow> nat set" where
  "fullset g = {0 ..< cube_size g}"

text \<open>
  A well-formed geometry: every variable owns a non-empty range of parts below
  \<open>cube.size\<close>, the ranges of different variables are disjoint, and the output
  variable is one of the variables. The variables may have any number of parts.
\<close>

definition wf_cube :: "cube_struct \<Rightarrow> bool" where
  "wf_cube g =
     (length (last_part g) = length (first_part g) \<and>
      output_var g < num_vars g \<and>
      list_all (\<lambda>v. first_part g ! v \<le> last_part g ! v \<and> last_part g ! v < cube_size g)
        [0 ..< num_vars g] \<and>
      list_all (\<lambda>v. list_all (\<lambda>w. v = w \<or> var_mask g v \<inter> var_mask g w = {}) [0 ..< num_vars g])
        [0 ..< num_vars g])"

text \<open>
  Every variable but the output variable is binary (two parts). This is a restriction
  of the geometry: \<open>mincov\<close> unravels the output variable only, so it treats the input
  variables as binary.
\<close>

definition binary_inputs :: "cube_struct \<Rightarrow> bool" where
  "binary_inputs g =
     list_all (\<lambda>v. v = output_var g \<or> last_part g ! v = Suc (first_part g ! v))
       [0 ..< num_vars g]"

text \<open>A well-formed geometry with binary inputs.\<close>

definition binary_geometry :: "cube_struct \<Rightarrow> bool" where
  "binary_geometry g = (wf_cube g \<and> binary_inputs g)"

text \<open>
  A valid cube lies inside \<open>fullset\<close> and has a part in every variable (a cube with
  all bits of some variable clear is the empty cube).
\<close>

definition valid_cube :: "cube_struct \<Rightarrow> nat set \<Rightarrow> bool" where
  "valid_cube g c =
     (c \<subseteq> fullset g \<and> list_all (\<lambda>v. c \<inter> var_mask g v \<noteq> {}) [0 ..< num_vars g])"

subsection \<open>Cube algebra\<close>

text \<open>
  Modelled from the spec: the set primitives \<open>setp_empty\<close>, \<open>setp_implies\<close>,
  \<open>setp_disjoint\<close>, \<open>setp_equal\<close> and \<open>set_dist\<close> (defined outside \<open>expand.c\<close>).
  \<open>set_or\<close>, \<open>set_and\<close>, \<open>set_diff\<close>, \<open>set_insert\<close> and \<open>set_remove\<close> are the
  operations of HOL sets.
\<close>

definition setp_empty :: "nat set \<Rightarrow> bool" where
  "setp_empty a = (a = {})"

definition setp_implies :: "nat set \<Rightarrow> nat set \<Rightarrow> bool" where
  "setp_implies a b = (a \<subseteq> b)"

definition setp_disjoint :: "nat set \<Rightarrow> nat set \<Rightarrow> bool" where
  "setp_disjoint a b = (a \<inter> b = {})"

definition setp_equal :: "nat set \<Rightarrow> nat set \<Rightarrow> bool" where
  "setp_equal a b = (a = b)"

definition set_dist :: "nat set \<Rightarrow> nat set \<Rightarrow> int" where
  "set_dist a b = int (card (a \<inter> b))"

text \<open>
  Modelled from the spec: \<open>cdist0\<close> and \<open>cdist01\<close> (defined outside \<open>expand.c\<close>).
  The variables that separate two cubes are those in which the cubes have no common
  part. \<open>cdist0\<close> holds iff no variable separates them; \<open>cdist01\<close> is 0, 1 or 2,
  where 2 stands for two or more separating variables.
\<close>

definition separating :: "cube_struct \<Rightarrow> nat set \<Rightarrow> nat set \<Rightarrow> nat list" where
  "separating g a b = filter (\<lambda>v. a \<inter> b \<inter> var_mask g v = {}) [0 ..< num_vars g]"

definition cdist0 :: "cube_struct \<Rightarrow> nat set \<Rightarrow> nat set \<Rightarrow> bool" where
  "cdist0 g a b = (separating g a b = [])"

definition cdist01 :: "cube_struct \<Rightarrow> nat set \<Rightarrow> nat set \<Rightarrow> nat" where
  "cdist01 g a b = min 2 (length (separating g a b))"

text \<open>
  Modelled from the spec: \<open>force_lower\<close> (defined outside \<open>expand.c\<close>). It adds to
  \<open>xlower\<close> the parts that must remain unraised to keep the raising cube \<open>b\<close>
  orthogonal to the OFF-set cube \<open>a\<close>: in every variable that separates \<open>a\<close> from
  \<open>b\<close>, the parts of \<open>a\<close>. This is the reading under which the callers in
  \<open>expand.c\<close> do what their comments say (\<open>essen_parts\<close> removes the result from
  \<open>FREESET\<close> "to insure that the cube be orthogonal to the OFF-set"; \<open>mincov\<close> calls
  the rows built from it "those cubes which we must avoid intersecting"); raising one
  of these parts is what would close the separating variable.
\<close>

definition force_lower :: "cube_struct \<Rightarrow> nat set \<Rightarrow> nat set \<Rightarrow> nat set \<Rightarrow> nat set" where
  "force_lower g xlower a b =
     foldl (\<lambda>x v. x \<union> (a \<inter> var_mask g v)) xlower (separating g a b)"

section \<open>The expansion step (expand.c)\<close>

text \<open>
  The two ways the C code leaves the normal control flow: \<open>fatal(...)\<close> in
  \<open>essen_parts\<close>, and the three places where it would use a value it does not have
  (\<open>set_insert\<close> with the index \<open>-1\<close> that \<open>most_frequent\<close> returns for an empty
  \<open>FREESET\<close>, the local \<open>bestfeas\<close> never assigned, a \<open>NULL\<close> covering matrix
  dereferenced).
\<close>

datatype error =
    Fatal_not_orthogonal
  | Insert_negative_part
  | Unassigned_bestfeas
  | Null_cover

text \<open>
  \<open>foreach_active_set(A, last, p) if (cond(p)) A->active_count--, RESET(p, ACTIVE);\<close>
  This loop shape occurs in \<open>elim_lowering\<close> (twice) and in \<open>essen_parts\<close>: every
  cube that is \<open>ACTIVE\<close> and satisfies the condition loses the flag, and the counter
  goes down by one for each of them.
\<close>

definition deactivate :: "(nat set \<Rightarrow> bool) \<Rightarrow> pcover \<Rightarrow> pcover" where
  "deactivate cond A =
     A\<lparr>sets := map (\<lambda>p. if TESTP p ACTIVE \<and> cond (bits p) then RESET p ACTIVE else p) (sets A),
       active_count :=
         active_count A - int (length (filter (\<lambda>p. TESTP p ACTIVE \<and> cond (bits p)) (sets A)))\<rparr>"

text \<open>
  \<open>elim_lowering\<close>: with \<open>r = RAISE | FREESET\<close>, deactivate the cubes of \<open>BB\<close> that
  do not intersect \<open>r\<close> and, when \<open>CC\<close> is not \<open>NULL\<close>, the cubes of \<open>CC\<close> that \<open>r\<close>
  does not contain.
\<close>

definition elim_lowering ::
  "cube_struct \<Rightarrow> pcover \<Rightarrow> pcover option \<Rightarrow> nat set \<Rightarrow> nat set \<Rightarrow> pcover \<times> pcover option" where
  "elim_lowering g BB CC RAISE FREESET =
     (let r = RAISE \<union> FREESET in
      (deactivate (\<lambda>p. \<not> cdist0 g p r) BB,
       map_option (deactivate (\<lambda>p. \<not> setp_implies p r)) CC))"

text \<open>
  \<open>essen_parts\<close>: the loop over the active cubes of \<open>BB\<close> calls \<open>fatal\<close> at the
  first cube at distance 0 from \<open>RAISE\<close>; otherwise it accumulates \<open>force_lower\<close> of
  the cubes at distance 1 into \<open>xlower\<close> and deactivates them. When \<open>xlower\<close> is not
  empty it is removed from \<open>FREESET\<close> and \<open>elim_lowering\<close> runs. The result is the new
  \<open>BB\<close>, \<open>CC\<close> and \<open>FREESET\<close> (\<open>RAISE\<close> is not written).
\<close>

definition essen_parts ::
  "cube_struct \<Rightarrow> pcover \<Rightarrow> pcover option \<Rightarrow> nat set \<Rightarrow> nat set
     \<Rightarrow> error + (pcover \<times> pcover option \<times> nat set)" where
  "essen_parts g BB CC RAISE FREESET =
     (let near = filter (\<lambda>p. TESTP p ACTIVE \<and> cdist01 g (bits p) RAISE \<le> 1) (sets BB) in
      if list_ex (\<lambda>p. cdist01 g (bits p) RAISE = 0) near then Inl Fatal_not_orthogonal
      else
        let xlower = foldl (\<lambda>x p. force_lower g x (bits p) RAISE) {} near;
            BB1 = deactivate (\<lambda>p. cdist01 g p RAISE \<le> 1) BB
        in if \<not> setp_empty xlower
           then (let FREESET1 = FREESET - xlower;
                     (BB2, CC2) = elim_lowering g BB1 CC RAISE FREESET1
                 in Inr (BB2, CC2, FREESET1))
           else Inr (BB1, CC, FREESET))"

text \<open>
  \<open>essen_raising\<close>: the free parts that no active cube of \<open>BB\<close> contains are moved
  from \<open>FREESET\<close> to \<open>RAISE\<close>. The result is the new \<open>RAISE\<close> and \<open>FREESET\<close>.
\<close>

definition essen_raising :: "pcover \<Rightarrow> nat set \<Rightarrow> nat set \<Rightarrow> nat set \<times> nat set" where
  "essen_raising BB RAISE FREESET =
     (let xraise = FREESET -
            foldl (\<lambda>x p. x \<union> bits p) {} (filter (\<lambda>p. TESTP p ACTIVE) (sets BB))
      in (RAISE \<union> xraise, FREESET - xraise))"

text \<open>
  \<open>most_frequent\<close>: \<open>count[i]\<close> is the number of active cubes of \<open>CC\<close> that contain
  part \<open>i\<close> (all zero when \<open>CC\<close> is \<open>NULL\<close>); the scan over the parts in increasing
  order keeps the first free part with a strictly larger count, starting from
  \<open>best_part = best_count = -1\<close>.
\<close>

definition part_count :: "pcover option \<Rightarrow> nat \<Rightarrow> int" where
  "part_count CC i =
     (case CC of
        None \<Rightarrow> 0
      | Some C \<Rightarrow> int (length (filter (\<lambda>p. TESTP p ACTIVE \<and> i \<in> bits p) (sets C))))"

definition most_frequent :: "cube_struct \<Rightarrow> pcover option \<Rightarrow> nat set \<Rightarrow> int" where
  "most_frequent g CC FREESET =
     fst (foldl (\<lambda>(best_part, best_count) i.
                   if i \<in> FREESET \<and> part_count CC i > best_count
                   then (int i, part_count CC i) else (best_part, best_count))
            (- 1, - 1) [0 ..< cube_size g])"

text \<open>
  \<open>feasibly_covered\<close>: with \<open>r = RAISE | c\<close>, \<open>FALSE\<close> (here \<open>None\<close>) as soon as an
  active cube of \<open>BB\<close> is at distance 0 from \<open>r\<close>; otherwise \<open>TRUE\<close> with \<open>new_lower\<close>
  the accumulated \<open>force_lower\<close> of the active cubes at distance 1. (On \<open>FALSE\<close> the
  caller never reads \<open>new_lower\<close>.)
\<close>

definition feasibly_covered ::
  "cube_struct \<Rightarrow> pcover \<Rightarrow> nat set \<Rightarrow> nat set \<Rightarrow> nat set option" where
  "feasibly_covered g BB c RAISE =
     (let r = RAISE \<union> c;
          near = filter (\<lambda>p. TESTP p ACTIVE \<and> cdist01 g (bits p) r \<le> 1) (sets BB)
      in if list_ex (\<lambda>p. cdist01 g (bits p) r = 0) near then None
         else Some (foldl (\<lambda>x p. force_lower g x (bits p) r) {} near))"

subsection \<open>\<open>select_feasible\<close>\<close>

text \<open>
  The array \<open>feas\<close> holds pointers into \<open>CC\<close>; here it holds the indices of these
  cubes. The filtering pass of \<open>select_feasible\<close> walks \<open>feas\<close>: an active cube that
  \<open>RAISE\<close> already contains is counted as covered (\<open>num_covered\<close>, \<open>SUPER_CUBE\<close>,
  flags \<open>ACTIVE\<close> off and \<open>COVERED\<close> on, counter down); an active cube that is
  feasibly covered is kept together with its \<open>feas_new_lower\<close> entry. The state is
  \<open>(CC, SUPER_CUBE, num_covered, kept)\<close>. (In C every pointer of \<open>feas\<close> points into
  \<open>CC\<close>; an index outside the cover is skipped.)
\<close>

fun feas_filter ::
  "cube_struct \<Rightarrow> pcover \<Rightarrow> nat set \<Rightarrow> nat list
     \<Rightarrow> pcover \<times> nat set \<times> int \<times> (nat \<times> nat set) list
     \<Rightarrow> pcover \<times> nat set \<times> int \<times> (nat \<times> nat set) list" where
  "feas_filter g BB RAISE [] st = st"
| "feas_filter g BB RAISE (i # rest) (CC, SUPER_CUBE, num_covered, kept) =
     (if i < length (sets CC) \<and> TESTP (sets CC ! i) ACTIVE then
        (let p = sets CC ! i in
         if setp_implies (bits p) RAISE then
           feas_filter g BB RAISE rest
             (CC\<lparr>sets := (sets CC)[i := SET (RESET p ACTIVE) COVERED],
                 active_count := active_count CC - 1\<rparr>,
              SUPER_CUBE \<union> bits p, num_covered + 1, kept)
         else
           (case feasibly_covered g BB (bits p) RAISE of
              Some new_lower \<Rightarrow>
                feas_filter g BB RAISE rest (CC, SUPER_CUBE, num_covered, kept @ [(i, new_lower)])
            | None \<Rightarrow> feas_filter g BB RAISE rest (CC, SUPER_CUBE, num_covered, kept)))
      else feas_filter g BB RAISE rest (CC, SUPER_CUBE, num_covered, kept))"

text \<open>
  The scoring pass: for candidate \<open>i\<close>, \<open>size\<close> is the number of its parts in
  \<open>FREESET\<close> and \<open>count\<close> the number of candidates disjoint from
  \<open>feas_new_lower[i]\<close>. The state is \<open>(bestcount, bestsize, bestfeas)\<close>; \<open>bestfeas\<close>
  is a local that is assigned only here, so it is an option.
\<close>

definition fcc_count :: "pcover \<Rightarrow> (nat \<times> nat set) list \<Rightarrow> nat set \<Rightarrow> int" where
  "fcc_count CC kept new_lower =
     int (length (filter (\<lambda>j. setp_disjoint new_lower (bits (sets CC ! j))) (map fst kept)))"

fun best_feasible ::
  "pcover \<Rightarrow> nat set \<Rightarrow> (nat \<times> nat set) list \<Rightarrow> (nat \<times> nat set) list
     \<Rightarrow> int \<times> int \<times> nat option \<Rightarrow> int \<times> int \<times> nat option" where
  "best_feasible CC FREESET kept [] st = st"
| "best_feasible CC FREESET kept ((i, new_lower) # rest) (bestcount, bestsize, bestfeas) =
     (let size_i = set_dist (bits (sets CC ! i)) FREESET;
          count_i = fcc_count CC kept new_lower
      in if count_i > bestcount then best_feasible CC FREESET kept rest (count_i, size_i, Some i)
         else if count_i = bestcount \<and> size_i < bestsize
              then best_feasible CC FREESET kept rest (bestcount, size_i, Some i)
              else best_feasible CC FREESET kept rest (bestcount, bestsize, bestfeas))"

text \<open>
  One pass from the label \<open>loop\<close> to \<open>goto loop\<close>: either the function returns
  (\<open>Return\<close>), or the state for the next pass (\<open>Goto_loop\<close>).
\<close>

datatype ('r, 's) pass = Return 'r | Goto_loop 's

definition select_feasible_pass ::
  "cube_struct \<Rightarrow> pcover \<Rightarrow> pcover \<Rightarrow> nat set \<Rightarrow> nat set \<Rightarrow> nat set \<Rightarrow> int \<Rightarrow> nat list
     \<Rightarrow> nat option
     \<Rightarrow> error + (pcover \<times> pcover \<times> nat set \<times> nat set \<times> nat set \<times> int,
                 pcover \<times> pcover \<times> nat set \<times> nat set \<times> nat set \<times> int \<times> nat list \<times> nat option) pass"
  where
  "select_feasible_pass g BB CC RAISE FREESET SUPER_CUBE num_covered feas bestfeas =
     (let (RAISE1, FREESET1) = essen_raising BB RAISE FREESET;
          (CC1, SUPER1, num1, kept) =
             feas_filter g BB RAISE1 feas (CC, SUPER_CUBE, num_covered, [])
      in if kept = [] then Inr (Return (BB, CC1, RAISE1, FREESET1, SUPER1, num1))
         else
           (case snd (snd (best_feasible CC1 FREESET1 kept kept (0, 9999, bestfeas))) of
              None \<Rightarrow> Inl Unassigned_bestfeas
            | Some b \<Rightarrow>
                (let RAISE2 = RAISE1 \<union> bits (sets CC1 ! b);
                     FREESET2 = FREESET1 - RAISE2
                 in case essen_parts g BB (Some CC1) RAISE2 FREESET2 of
                      Inl e \<Rightarrow> Inl e
                    | Inr (BB3, None, FREESET3) \<Rightarrow> Inl Null_cover
                    | Inr (BB3, Some CC3, FREESET3) \<Rightarrow>
                        Inr (Goto_loop (BB3, CC3, RAISE2, FREESET3, SUPER1, num1,
                                        map fst kept, Some b)))))"

text \<open>The measure that decreases from one pass to the next.\<close>

definition feas_measure :: "pcover \<Rightarrow> nat set \<Rightarrow> nat list \<Rightarrow> nat" where
  "feas_measure CC RAISE feas =
     2 * length feas +
     (if list_ex (\<lambda>i. i < length (sets CC) \<and> bits (sets CC ! i) \<subseteq> RAISE) feas then 0 else 1)"

subsection \<open>Facts used by the termination proofs\<close>

lemma bits_SET [simp]: "bits (SET p f) = bits p" by (simp add: SET_def)
lemma bits_RESET [simp]: "bits (RESET p f) = bits p" by (simp add: RESET_def)
lemma TESTP_SET [simp]: "TESTP (SET p f) f' = (f' = f \<or> TESTP p f')" by (auto simp: SET_def TESTP_def)
lemma TESTP_RESET [simp]: "TESTP (RESET p f) f' = (f' \<noteq> f \<and> TESTP p f')" by (auto simp: RESET_def TESTP_def)

lemma length_deactivate [simp]: "length (sets (deactivate c A)) = length (sets A)"
  by (simp add: deactivate_def)

lemma bits_deactivate [simp]: "j < length (sets A) \<Longrightarrow> bits (sets (deactivate c A) ! j) = bits (sets A ! j)"
  by (simp add: deactivate_def)

lemma force_lower_eq: "force_lower g x a b = x \<union> (\<Union>v\<in>set (separating g a b). a \<inter> var_mask g v)"
proof -
  have "foldl (\<lambda>x v. x \<union> (a \<inter> var_mask g v)) x vs = x \<union> (\<Union>v\<in>set vs. a \<inter> var_mask g v)" for vs
    by (induction vs arbitrary: x) auto
  then show ?thesis by (simp add: force_lower_def)
qed

lemma force_lower_fold_eq:
  "foldl (\<lambda>x p. force_lower g x (bits p) r) x ps
     = x \<union> (\<Union>p\<in>set ps. \<Union>v\<in>set (separating g (bits p) r). bits p \<inter> var_mask g v)"
  by (induction ps arbitrary: x) (auto simp: force_lower_eq)

lemma separating_iff: "v \<in> set (separating g a b) \<longleftrightarrow> v < num_vars g \<and> a \<inter> b \<inter> var_mask g v = {}"
  by (auto simp: separating_def)

lemma feasibly_covered_disjoint:
  "feasibly_covered g BB c RAISE = Some nl \<Longrightarrow> nl \<inter> (RAISE \<union> c) = {}"
  by (auto simp: feasibly_covered_def Let_def force_lower_fold_eq separating_iff split: if_splits)

lemma essen_parts_CC:
  assumes "essen_parts g BB (Some CC) R F = Inr (BB', CCo, F')"
  shows "\<exists>CC'. CCo = Some CC' \<and> length (sets CC') = length (sets CC)
           \<and> (\<forall>j < length (sets CC). bits (sets CC' ! j) = bits (sets CC ! j))"
  using assms
  by (auto simp: essen_parts_def Let_def elim_lowering_def split: if_splits)

lemma essen_parts_FREESET:
  "essen_parts g BB CC R F = Inr (BB', CCo, F') \<Longrightarrow> F' \<subseteq> F"
  by (auto simp: essen_parts_def Let_def elim_lowering_def split: if_splits)

lemma feas_filter_props:
  "feas_filter g BB RAISE feas (CC, S, n, kept0) = (CC', S', n', kept') \<Longrightarrow>
     length (sets CC') = length (sets CC) \<and>
     (\<forall>j. bits (sets CC' ! j) = bits (sets CC ! j)) \<and>
     length kept' \<le> length kept0 + length feas \<and>
     (list_ex (\<lambda>i. i < length (sets CC) \<and> bits (sets CC ! i) \<subseteq> RAISE) feas
        \<longrightarrow> length kept' < length kept0 + length feas) \<and>
     (\<forall>x\<in>set kept'. x \<in> set kept0 \<or>
         (fst x \<in> set feas \<and> fst x < length (sets CC) \<and> \<not> bits (sets CC ! fst x) \<subseteq> RAISE \<and>
          feasibly_covered g BB (bits (sets CC ! fst x)) RAISE = Some (snd x)))"
proof (induction feas arbitrary: CC S n kept0)
  case Nil
  then show ?case by auto
next
  case (Cons i rest)
  show ?case
  proof (cases "i < length (sets CC) \<and> TESTP (sets CC ! i) ACTIVE")
    case False
    with Cons.prems have "feas_filter g BB RAISE rest (CC, S, n, kept0) = (CC', S', n', kept')"
      by auto
    from Cons.IH[OF this] show ?thesis
      by (auto simp: list_ex_iff)
  next
    case True
    note act = True
    show ?thesis
    proof (cases "bits (sets CC ! i) \<subseteq> RAISE")
      case True
      define CC1 where "CC1 = CC\<lparr>sets := (sets CC)[i := SET (RESET (sets CC ! i) ACTIVE) COVERED],
                 active_count := active_count CC - 1\<rparr>"
      from True act Cons.prems
      have "feas_filter g BB RAISE rest (CC1, S \<union> bits (sets CC ! i), n + 1, kept0) = (CC', S', n', kept')"
        by (simp add: setp_implies_def CC1_def Let_def)
      from Cons.IH[OF this]
      have ih: "length (sets CC') = length (sets CC1)"
        "\<forall>j. bits (sets CC' ! j) = bits (sets CC1 ! j)"
        "length kept' \<le> length kept0 + length rest"
        "\<forall>x\<in>set kept'. x \<in> set kept0 \<or>
           (fst x \<in> set rest \<and> fst x < length (sets CC1) \<and> \<not> bits (sets CC1 ! fst x) \<subseteq> RAISE \<and>
            feasibly_covered g BB (bits (sets CC1 ! fst x)) RAISE = Some (snd x))"
        by auto
      have b1: "bits (sets CC1 ! j) = bits (sets CC ! j)" for j
        using act by (cases "j = i") (auto simp: CC1_def)
      have l1: "length (sets CC1) = length (sets CC)" by (simp add: CC1_def)
      show ?thesis using ih by (auto simp: b1 l1)
    next
      case False
      note nimp = False
      show ?thesis
      proof (cases "feasibly_covered g BB (bits (sets CC ! i)) RAISE")
        case None
        with nimp act Cons.prems
        have "feas_filter g BB RAISE rest (CC, S, n, kept0) = (CC', S', n', kept')"
          by (simp add: setp_implies_def Let_def)
        from Cons.IH[OF this] nimp show ?thesis
          by (auto simp: list_ex_iff)
      next
        case (Some nl)
        with nimp act Cons.prems
        have "feas_filter g BB RAISE rest (CC, S, n, kept0 @ [(i, nl)]) = (CC', S', n', kept')"
          by (simp add: setp_implies_def Let_def)
        from Cons.IH[OF this]
        have ih: "length (sets CC') = length (sets CC)"
          "\<forall>j. bits (sets CC' ! j) = bits (sets CC ! j)"
          "length kept' \<le> length (kept0 @ [(i, nl)]) + length rest"
          "list_ex (\<lambda>i. i < length (sets CC) \<and> bits (sets CC ! i) \<subseteq> RAISE) rest
             \<longrightarrow> length kept' < length (kept0 @ [(i, nl)]) + length rest"
          "\<forall>x\<in>set kept'. x \<in> set (kept0 @ [(i, nl)]) \<or>
           (fst x \<in> set rest \<and> fst x < length (sets CC) \<and> \<not> bits (sets CC ! fst x) \<subseteq> RAISE \<and>
            feasibly_covered g BB (bits (sets CC ! fst x)) RAISE = Some (snd x))"
          by auto
        have c4: "list_ex (\<lambda>i. i < length (sets CC) \<and> bits (sets CC ! i) \<subseteq> RAISE) (i # rest)
             \<longrightarrow> length kept' < length kept0 + length (i # rest)"
          using ih(4) nimp by simp
        have c5: "\<forall>x\<in>set kept'. x \<in> set kept0 \<or>
           (fst x \<in> set (i # rest) \<and> fst x < length (sets CC) \<and> \<not> bits (sets CC ! fst x) \<subseteq> RAISE \<and>
            feasibly_covered g BB (bits (sets CC ! fst x)) RAISE = Some (snd x))"
        proof
          fix x assume "x \<in> set kept'"
          with ih(5) have "x \<in> set (kept0 @ [(i, nl)]) \<or>
           (fst x \<in> set rest \<and> fst x < length (sets CC) \<and> \<not> bits (sets CC ! fst x) \<subseteq> RAISE \<and>
            feasibly_covered g BB (bits (sets CC ! fst x)) RAISE = Some (snd x))" by blast
          then show "x \<in> set kept0 \<or>
           (fst x \<in> set (i # rest) \<and> fst x < length (sets CC) \<and> \<not> bits (sets CC ! fst x) \<subseteq> RAISE \<and>
            feasibly_covered g BB (bits (sets CC ! fst x)) RAISE = Some (snd x))"
            using nimp act Some by auto
        qed
        show ?thesis using ih(1,2,3) c4 c5 by simp
      qed
    qed
  qed
qed

lemma best_feasible_props:
  "best_feasible CC FREESET kept rest (bc, bs, bf) = (bc', bs', bf') \<Longrightarrow>
     bc \<le> bc' \<and> (\<forall>x\<in>set rest. fcc_count CC kept (snd x) \<le> bc') \<and>
     (bf' = bf \<or> bf' \<in> Some ` fst ` set rest) \<and>
     (bc < bc' \<longrightarrow> bf' \<in> Some ` fst ` set rest)"
proof (induction rest arbitrary: bc bs bf)
  case Nil
  then show ?case by auto
next
  case (Cons x rest)
  obtain i nl where x: "x = (i, nl)" by (cases x)
  let ?c = "fcc_count CC kept nl"
  let ?s = "set_dist (bits (sets CC ! i)) FREESET"
  consider (a) "?c > bc" | (b) "\<not> ?c > bc" "?c = bc \<and> ?s < bs" | (c) "\<not> ?c > bc" "\<not> (?c = bc \<and> ?s < bs)"
    by blast
  then show ?case
  proof cases
    case a
    with Cons.prems x have "best_feasible CC FREESET kept rest (?c, ?s, Some i) = (bc', bs', bf')"
      by (simp add: Let_def)
    from Cons.IH[OF this] a x show ?thesis by auto
  next
    case b
    with Cons.prems x have "best_feasible CC FREESET kept rest (bc, ?s, Some i) = (bc', bs', bf')"
      by (simp add: Let_def)
    from Cons.IH[OF this] b x show ?thesis by auto
  next
    case c
    with Cons.prems x have "best_feasible CC FREESET kept rest (bc, bs, bf) = (bc', bs', bf')"
      by (simp add: Let_def)
    from Cons.IH[OF this] c x show ?thesis by auto
  qed
qed

lemma select_feasible_pass_measure:
  assumes "select_feasible_pass g BB CC RAISE FREESET SUPER_CUBE num_covered feas bestfeas
             = Inr (Goto_loop (BB1, CC1, RAISE1, FREESET1, SUPER1, num1, feas1, bestfeas1))"
  shows "feas_measure CC1 RAISE1 feas1 < feas_measure CC RAISE feas"
proof -
  obtain R1 F1 where er: "essen_raising BB RAISE FREESET = (R1, F1)" by (cases "essen_raising BB RAISE FREESET")
  obtain CCa Sa na kept where ff: "feas_filter g BB R1 feas (CC, SUPER_CUBE, num_covered, []) = (CCa, Sa, na, kept)"
    by (cases "feas_filter g BB R1 feas (CC, SUPER_CUBE, num_covered, [])") auto
  obtain bc bs bf where bfe: "best_feasible CCa F1 kept kept (0, 9999, bestfeas) = (bc, bs, bf)"
    by (cases "best_feasible CCa F1 kept kept (0, 9999, bestfeas)") auto
  have RR: "RAISE \<subseteq> R1" using er by (auto simp: essen_raising_def Let_def)
  from assms er ff bfe have ne: "kept \<noteq> []"
    by (auto simp: select_feasible_pass_def Let_def split: if_splits)
  from assms er ff bfe ne obtain b where b: "bf = Some b"
    by (auto simp: select_feasible_pass_def Let_def split: option.splits)
  let ?R2 = "R1 \<union> bits (sets CCa ! b)"
  from assms er ff bfe ne b obtain CCo where
    ep: "essen_parts g BB (Some CCa) ?R2 (F1 - ?R2) = Inr (BB1, CCo, FREESET1)"
    and res: "CCo = Some CC1" "RAISE1 = ?R2" "feas1 = map fst kept"
    by (auto simp: select_feasible_pass_def Let_def split: option.splits sum.splits)
  note fp = feas_filter_props[OF ff]
  from fp have lenA: "length (sets CCa) = length (sets CC)" and bitsA: "\<And>j. bits (sets CCa ! j) = bits (sets CC ! j)"
    and lk: "length kept \<le> length feas"
    and drop: "list_ex (\<lambda>i. i < length (sets CC) \<and> bits (sets CC ! i) \<subseteq> R1) feas \<Longrightarrow> length kept < length feas"
    and keptp: "\<And>x. x \<in> set kept \<Longrightarrow> fst x \<in> set feas \<and> fst x < length (sets CC) \<and> \<not> bits (sets CC ! fst x) \<subseteq> R1 \<and>
          feasibly_covered g BB (bits (sets CC ! fst x)) R1 = Some (snd x)"
    by auto
  from essen_parts_CC[OF ep] res have len1: "length (sets CC1) = length (sets CCa)"
    and bits1: "\<And>j. j < length (sets CCa) \<Longrightarrow> bits (sets CC1 ! j) = bits (sets CCa ! j)" by auto
  \<comment> \<open>the first candidate counts itself, so bestfeas is assigned in this pass\<close>
  obtain x0 xs where kx: "kept = x0 # xs" using ne by (cases kept) auto
  have "snd x0 \<inter> bits (sets CCa ! fst x0) = {}"
    using feasibly_covered_disjoint[of g BB "bits (sets CC ! fst x0)" R1 "snd x0"] keptp[of x0] kx
    by (auto simp: bitsA)
  then have "fcc_count CCa kept (snd x0) \<ge> 1"
    by (simp add: fcc_count_def kx setp_disjoint_def)
  with best_feasible_props[OF bfe] kx have "0 < bc" by force
  with best_feasible_props[OF bfe] b have bin: "b \<in> fst ` set kept" by auto
  then obtain xb where xb: "xb \<in> set kept" "fst xb = b" by auto
  have bl: "b < length (sets CC)" using keptp[OF xb(1)] xb by simp
  have "bits (sets CC1 ! b) \<subseteq> RAISE1" using bits1[of b] bl lenA res by auto
  then have d1: "list_ex (\<lambda>i. i < length (sets CC1) \<and> bits (sets CC1 ! i) \<subseteq> RAISE1) feas1"
    using bin bl len1 lenA res by (auto simp: list_ex_iff)
  show ?thesis
  proof (cases "list_ex (\<lambda>i. i < length (sets CC) \<and> bits (sets CC ! i) \<subseteq> RAISE) feas")
    case True
    then have "list_ex (\<lambda>i. i < length (sets CC) \<and> bits (sets CC ! i) \<subseteq> R1) feas"
      using RR by (auto simp: list_ex_iff)
    from drop[OF this] show ?thesis using res by (simp add: feas_measure_def)
  next
    case False
    then show ?thesis using d1 lk res by (simp add: feas_measure_def)
  qed
qed

text \<open>
  \<open>select_feasible\<close>: \<open>feas\<close> starts as the active cubes of \<open>CC\<close>, \<open>bestfeas\<close>
  starts unassigned, and the passes repeat until one returns.
\<close>

function select_feasible_loop ::
  "cube_struct \<Rightarrow> pcover \<Rightarrow> pcover \<Rightarrow> nat set \<Rightarrow> nat set \<Rightarrow> nat set \<Rightarrow> int \<Rightarrow> nat list
     \<Rightarrow> nat option
     \<Rightarrow> error + (pcover \<times> pcover \<times> nat set \<times> nat set \<times> nat set \<times> int)" where
  "select_feasible_loop g BB CC RAISE FREESET SUPER_CUBE num_covered feas bestfeas =
     (case select_feasible_pass g BB CC RAISE FREESET SUPER_CUBE num_covered feas bestfeas of
        Inl e \<Rightarrow> Inl e
      | Inr (Return r) \<Rightarrow> Inr r
      | Inr (Goto_loop (BB1, CC1, RAISE1, FREESET1, SUPER1, num1, feas1, bestfeas1)) \<Rightarrow>
          select_feasible_loop g BB1 CC1 RAISE1 FREESET1 SUPER1 num1 feas1 bestfeas1)"
  by pat_completeness auto
termination
  by (relation "measure (\<lambda>(g, BB, CC, RAISE, FREESET, SUPER_CUBE, num_covered, feas, bestfeas).
                          feas_measure CC RAISE feas)")
     (auto dest: select_feasible_pass_measure)

declare select_feasible_loop.simps [simp del]

definition select_feasible ::
  "cube_struct \<Rightarrow> pcover \<Rightarrow> pcover \<Rightarrow> nat set \<Rightarrow> nat set \<Rightarrow> nat set \<Rightarrow> int
     \<Rightarrow> error + (pcover \<times> pcover \<times> nat set \<times> nat set \<times> nat set \<times> int)" where
  "select_feasible g BB CC RAISE FREESET SUPER_CUBE num_covered =
     select_feasible_loop g BB CC RAISE FREESET SUPER_CUBE num_covered
       (filter (\<lambda>i. TESTP (sets CC ! i) ACTIVE) [0 ..< length (sets CC)]) None"

subsection \<open>\<open>mincov\<close>\<close>

text \<open>
  The external collaborators of this file, taken as parameters: \<open>mini_sort(F, ascend)\<close>,
  \<open>unravel_output\<close>, \<open>do_sm_minimum_cover\<close>, \<open>mark_irredundant\<close> (returning the
  cover it marked) and the total of \<open>cover_cost\<close>. The covering matrix \<open>B\<close> of
  \<open>mincov\<close> is a list of rows (bit vectors without flags).
\<close>

record extern =
  mini_sort :: "pcover \<Rightarrow> pcover"
  unravel_output :: "nat set list \<Rightarrow> nat set list"
  do_sm_minimum_cover :: "nat set list \<Rightarrow> nat set"
  mark_irredundant :: "pcover \<Rightarrow> pcover \<Rightarrow> pcover"
  cover_cost :: "pcover \<Rightarrow> int"

text \<open>
  The size guard of \<open>mincov\<close>: \<open>True\<close> when the scan of the rows of \<open>B\<close> reaches
  \<open>goto heuristic_mincov\<close>, with \<open>nset\<close> the running sum.
\<close>

fun blows_up :: "cube_struct \<Rightarrow> nat set list \<Rightarrow> int \<Rightarrow> bool" where
  "blows_up g [] nset = False"
| "blows_up g (p # rest) nset =
     (let dist = set_dist p (var_mask g (output_var g));
          expansion = (if dist > 1 then 1 * dist else 1)
      in if dist > 1 \<and> expansion > 500 then True
         else if nset + expansion > 500 then True
         else blows_up g rest (nset + expansion))"

text \<open>
  \<open>mincov\<close> (without \<open>RANDOM_MINCOV\<close>): one row \<open>force_lower(empty, p, RAISE)\<close> per
  active cube of \<open>BB\<close>. On the heuristic branch \<open>most_frequent(NULL, FREESET)\<close> is
  inserted into \<open>RAISE\<close>, \<open>FREESET\<close> loses \<open>RAISE\<close>, and \<open>essen_parts\<close> runs with
  \<open>CC = NULL\<close>. Otherwise the minimum cover \<open>xlower\<close> of the unravelled rows decides:
  \<open>RAISE\<close> gains \<open>FREESET - xlower\<close>, \<open>FREESET\<close> becomes empty and
  \<open>BB->active_count\<close> is set to 0 (the \<open>ACTIVE\<close> flags are left as they are).
\<close>

text \<open>
  \<open>expansion\<close> as the scan computes it for one row: the number of output parts of the
  row when that is more than 1, and 1 otherwise.
\<close>

definition row_expansion :: "cube_struct \<Rightarrow> nat set \<Rightarrow> int" where
  "row_expansion g p =
     (if set_dist p (var_mask g (output_var g)) > 1
      then set_dist p (var_mask g (output_var g)) else 1)"

definition mincov_rows :: "cube_struct \<Rightarrow> pcover \<Rightarrow> nat set \<Rightarrow> nat set list" where
  "mincov_rows g BB RAISE =
     map (\<lambda>p. force_lower g {} (bits p) RAISE) (filter (\<lambda>p. TESTP p ACTIVE) (sets BB))"

definition mincov ::
  "extern \<Rightarrow> cube_struct \<Rightarrow> pcover \<Rightarrow> nat set \<Rightarrow> nat set \<Rightarrow> error + (pcover \<times> nat set \<times> nat set)" where
  "mincov ext g BB RAISE FREESET =
     (let B = mincov_rows g BB RAISE
      in if blows_up g B 0 then
           (let best = most_frequent g None FREESET in
            if best < 0 then Inl Insert_negative_part
            else (let RAISE1 = insert (nat best) RAISE;
                      FREESET1 = FREESET - RAISE1
                  in case essen_parts g BB None RAISE1 FREESET1 of
                       Inl e \<Rightarrow> Inl e
                     | Inr (BB2, CC2, FREESET2) \<Rightarrow> Inr (BB2, RAISE1, FREESET2)))
         else
           (let xlower = do_sm_minimum_cover ext (unravel_output ext B)
            in Inr (BB\<lparr>active_count := 0\<rparr>, RAISE \<union> (FREESET - xlower), {})))"

subsection \<open>The loops of \<open>expand1\<close>\<close>

lemma most_frequent_scan:
  "fst (foldl (\<lambda>(best_part, best_count) i.
                   if i \<in> FREESET \<and> part_count CC i > best_count
                   then (int i, part_count CC i) else (best_part, best_count)) (bp, bc) xs) = bp
   \<or> (\<exists>i\<in>set xs. i \<in> FREESET \<and>
         fst (foldl (\<lambda>(best_part, best_count) i.
                   if i \<in> FREESET \<and> part_count CC i > best_count
                   then (int i, part_count CC i) else (best_part, best_count)) (bp, bc) xs) = int i)"
proof (induction xs arbitrary: bp bc)
  case Nil
  then show ?case by simp
next
  case (Cons x xs)
  show ?case
    using Cons.IH[of bp bc] Cons.IH[of "int x" "part_count CC x"]
    by (cases "x \<in> FREESET \<and> part_count CC x > bc") auto
qed

lemma most_frequent_range:
  "most_frequent g CC FREESET = - 1 \<or>
   (\<exists>i. most_frequent g CC FREESET = int i \<and> i \<in> FREESET \<and> i < cube_size g)"
  using most_frequent_scan[of FREESET CC "- 1" "- 1" "[0 ..< cube_size g]"]
  by (auto simp: most_frequent_def)

lemma most_frequent_nonneg:
  "0 \<le> most_frequent g CC FREESET \<Longrightarrow>
     nat (most_frequent g CC FREESET) \<in> FREESET \<and> nat (most_frequent g CC FREESET) < cube_size g"
  using most_frequent_range[of g CC FREESET] by auto

lemma card_free_less:
  assumes "b \<in> F" "b < n" "F' \<subseteq> F - {b}"
  shows "card (F' \<inter> {0 ..< n}) < card (F \<inter> {0 ..< n::nat})"
proof -
  have "F' \<inter> {0 ..< n} \<subset> F \<inter> {0 ..< n}" using assms by auto
  then show ?thesis by (simp add: psubset_card_mono)
qed

lemma mincov_measure:
  assumes "mincov ext g BB RAISE FREESET = Inr (BB1, RAISE1, FREESET1)"
  shows "active_count BB1 = 0 \<or>
         card (FREESET1 \<inter> {0 ..< cube_size g}) < card (FREESET \<inter> {0 ..< cube_size g})"
proof (cases "blows_up g (mincov_rows g BB RAISE) 0")
  case False
  with assms show ?thesis by (auto simp: mincov_def Let_def)
next
  case True
  let ?b = "most_frequent g None FREESET"
  from True assms have nn: "0 \<le> ?b" by (auto simp: mincov_def Let_def split: if_splits)
  from True assms nn obtain CCo where
    "essen_parts g BB None (insert (nat ?b) RAISE) (FREESET - insert (nat ?b) RAISE) = Inr (BB1, CCo, FREESET1)"
    by (auto simp: mincov_def Let_def split: if_splits sum.splits)
  from essen_parts_FREESET[OF this] have "FREESET1 \<subseteq> FREESET - {nat ?b}" by auto
  with most_frequent_nonneg[OF nn] show ?thesis by (auto intro: card_free_less)
qed

text \<open>
  \<open>while (CC->active_count > 0) { bestindex = most_frequent(CC, FREESET); ... }\<close>
\<close>

function cover_loop ::
  "cube_struct \<Rightarrow> pcover \<Rightarrow> pcover \<Rightarrow> nat set \<Rightarrow> nat set
     \<Rightarrow> error + (pcover \<times> pcover \<times> nat set \<times> nat set)" where
  "cover_loop g BB CC RAISE FREESET =
     (if active_count CC > 0 then
        (let bestindex = most_frequent g (Some CC) FREESET in
         if bestindex < 0 then Inl Insert_negative_part
         else (let RAISE1 = insert (nat bestindex) RAISE;
                   FREESET1 = FREESET - {nat bestindex}
               in case essen_parts g BB (Some CC) RAISE1 FREESET1 of
                    Inl e \<Rightarrow> Inl e
                  | Inr (BB2, None, FREESET2) \<Rightarrow> Inl Null_cover
                  | Inr (BB2, Some CC2, FREESET2) \<Rightarrow> cover_loop g BB2 CC2 RAISE1 FREESET2))
      else Inr (BB, CC, RAISE, FREESET))"
  by pat_completeness auto
termination
proof (relation "measure (\<lambda>(g, BB, CC, RAISE, FREESET). card (FREESET \<inter> {0 ..< cube_size g}))", goal_cases)
  case 1
  show ?case by simp
next
  case (2 g BB CC RAISE FREESET b R1 F1 r BB2 y CCo F2 CC2)
  from 2 have "F2 \<subseteq> F1" by (auto dest: essen_parts_FREESET)
  with 2 most_frequent_nonneg[of g "Some CC" FREESET] show ?case
    by (auto intro!: card_free_less[of "nat (most_frequent g (Some CC) FREESET)"])
qed

declare cover_loop.simps [simp del]

text \<open>\<open>while (BB->active_count > 0) { mincov(BB, RAISE, FREESET); }\<close>\<close>

function mincov_loop ::
  "extern \<Rightarrow> cube_struct \<Rightarrow> pcover \<Rightarrow> nat set \<Rightarrow> nat set \<Rightarrow> error + (pcover \<times> nat set \<times> nat set)" where
  "mincov_loop ext g BB RAISE FREESET =
     (if active_count BB > 0 then
        (case mincov ext g BB RAISE FREESET of
           Inl e \<Rightarrow> Inl e
         | Inr (BB1, RAISE1, FREESET1) \<Rightarrow> mincov_loop ext g BB1 RAISE1 FREESET1)
      else Inr (BB, RAISE, FREESET))"
  by pat_completeness auto
termination
  by (relation "measure (\<lambda>(ext, g, BB, RAISE, FREESET).
                  if active_count BB > 0 then Suc (card (FREESET \<inter> {0 ..< cube_size g})) else 0)")
     (auto dest: mincov_measure)

declare mincov_loop.simps [simp del]

subsection \<open>\<open>expand1\<close> and \<open>expand\<close>\<close>

text \<open>
  \<open>expand1(BB, CC, INIT_LOWER, c)\<close>, where \<open>c\<close> points to the cube of index \<open>i\<close> of
  \<open>CC\<close>. \<open>expand1_start\<close> is the part up to the first \<open>essen_parts\<close>, after which
  \<open>OVEREXPANDED_CUBE = RAISE | FREESET\<close> is recorded; it returns \<open>BB\<close>, \<open>CC\<close>,
  \<open>RAISE\<close> and \<open>FREESET\<close> at that point. \<open>expand1\<close> returns the final \<open>BB\<close> and \<open>CC\<close>
  (with the expanded cube written back at index \<open>i\<close>).
\<close>

definition expand1_start ::
  "cube_struct \<Rightarrow> pcover \<Rightarrow> pcover \<Rightarrow> nat set \<Rightarrow> nat
     \<Rightarrow> error + (pcover \<times> pcover \<times> nat set \<times> nat set)" where
  "expand1_start g BB CC INIT_LOWER i =
     (let CC0 = CC\<lparr>sets := (sets CC)[i := SET (sets CC ! i) PRIME]\<rparr>;
          BB1 = BB\<lparr>active_count := int (length (sets BB)),
                  sets := map (\<lambda>p. SET p ACTIVE) (sets BB)\<rparr>;
          CC1 = CC0\<lparr>active_count := int (length (sets CC0))
                       - int (length (filter (\<lambda>p. TESTP p COVERED \<or> TESTP p PRIME) (sets CC0))),
                  sets := map (\<lambda>p. if TESTP p COVERED \<or> TESTP p PRIME
                                    then RESET p ACTIVE else SET p ACTIVE) (sets CC0)\<rparr>;
          RAISE = bits (sets CC1 ! i);
          FREESET = fullset g - RAISE;
          (FREESET1, BB2, CC2) =
             (if \<not> setp_empty INIT_LOWER
              then (let FREESET1 = FREESET - INIT_LOWER;
                        (BB2, CC2) = elim_lowering g BB1 (Some CC1) RAISE FREESET1
                    in (FREESET1, BB2, CC2))
              else (FREESET, BB1, Some CC1))
      in case essen_parts g BB2 CC2 RAISE FREESET1 of
           Inl e \<Rightarrow> Inl e
         | Inr (BB3, None, FREESET3) \<Rightarrow> Inl Null_cover
         | Inr (BB3, Some CC3, FREESET3) \<Rightarrow> Inr (BB3, CC3, RAISE, FREESET3))"

definition expand1 ::
  "extern \<Rightarrow> cube_struct \<Rightarrow> pcover \<Rightarrow> pcover \<Rightarrow> nat set \<Rightarrow> nat \<Rightarrow> error + (pcover \<times> pcover)" where
  "expand1 ext g BB CC INIT_LOWER i =
     (case expand1_start g BB CC INIT_LOWER i of
        Inl e \<Rightarrow> Inl e
      | Inr (BB1, CC1, RAISE1, FREESET1) \<Rightarrow>
          (let SUPER_CUBE = bits (sets CC ! i);
               OVEREXPANDED_CUBE = RAISE1 \<union> FREESET1
           in case (if active_count CC1 > 0
                    then select_feasible g BB1 CC1 RAISE1 FREESET1 SUPER_CUBE 0
                    else Inr (BB1, CC1, RAISE1, FREESET1, SUPER_CUBE, 0)) of
                Inl e \<Rightarrow> Inl e
              | Inr (BB2, CC2, RAISE2, FREESET2, SUPER2, num_covered) \<Rightarrow>
                  (case cover_loop g BB2 CC2 RAISE2 FREESET2 of
                     Inl e \<Rightarrow> Inl e
                   | Inr (BB3, CC3, RAISE3, FREESET3) \<Rightarrow>
                       (case mincov_loop ext g BB3 RAISE3 FREESET3 of
                          Inl e \<Rightarrow> Inl e
                        | Inr (BB4, RAISE4, FREESET4) \<Rightarrow>
                            (let RAISE5 = RAISE4 \<union> FREESET4;
                                 c1 = RESET (SET ((sets CC3 ! i)\<lparr>bits := RAISE5\<rparr>) PRIME) COVERED;
                                 c2 = (if num_covered = 0 \<and> \<not> setp_equal (bits c1) OVEREXPANDED_CUBE
                                       then SET c1 NONESSEN else c1)
                             in Inr (BB4, CC3\<lparr>sets := (sets CC3)[i := c2]\<rparr>))))))"

text \<open>
  The main loop of \<open>expand\<close> over the cubes of \<open>F\<close> (by index), threading \<open>R\<close> and
  \<open>F\<close>, which \<open>expand1\<close> updates in place.
\<close>

fun expand_cubes ::
  "extern \<Rightarrow> cube_struct \<Rightarrow> nat set \<Rightarrow> nat list \<Rightarrow> pcover \<Rightarrow> pcover \<Rightarrow> error + (pcover \<times> pcover)" where
  "expand_cubes ext g INIT_LOWER [] R F = Inr (R, F)"
| "expand_cubes ext g INIT_LOWER (i # rest) R F =
     (if \<not> TESTP (sets F ! i) PRIME \<and> \<not> TESTP (sets F ! i) COVERED then
        (case expand1 ext g R F INIT_LOWER i of
           Inl e \<Rightarrow> Inl e
         | Inr (R1, F1) \<Rightarrow> expand_cubes ext g INIT_LOWER rest R1 F1)
      else expand_cubes ext g INIT_LOWER rest R F)"

text \<open>
  Modelled from the spec: \<open>sf_inactive\<close> (defined outside \<open>expand.c\<close>) compacts a
  cover to its \<open>ACTIVE\<close> cubes.
\<close>

definition sf_inactive :: "pcover \<Rightarrow> pcover" where
  "sf_inactive A = A\<lparr>sets := filter (\<lambda>p. TESTP p ACTIVE) (sets A)\<rparr>"

text \<open>
  \<open>expand(F, R, nonsparse)\<close>. The C function returns \<open>F\<close>; \<open>R\<close> is the caller's
  object, whose flags and counter \<open>expand1\<close> has overwritten, so both are returned.
\<close>

definition expand :: "extern \<Rightarrow> cube_struct \<Rightarrow> pcover \<Rightarrow> pcover \<Rightarrow> bool \<Rightarrow> error + (pcover \<times> pcover)" where
  "expand ext g F R nonsparse =
     (let F1 = mini_sort ext F;
          INIT_LOWER = (if nonsparse then {} \<union> var_mask g (output_var g) else {});
          F2 = F1\<lparr>sets := map (\<lambda>p. RESET (RESET p COVERED) NONESSEN) (sets F1)\<rparr>
      in case expand_cubes ext g INIT_LOWER [0 ..< length (sets F2)] R F2 of
           Inl e \<Rightarrow> Inl e
         | Inr (R3, F3) \<Rightarrow>
             (let F4 = F3\<lparr>active_count := int (length (filter (\<lambda>p. \<not> TESTP p COVERED) (sets F3))),
                         sets := map (\<lambda>p. if TESTP p COVERED then RESET p ACTIVE else SET p ACTIVE)
                                   (sets F3)\<rparr>;
                  change = list_ex (\<lambda>p. TESTP p COVERED) (sets F3)
              in Inr (if change then sf_inactive F4 else F4, R3)))"

section \<open>Sparse-variable cleanup (sparse.c)\<close>

text \<open>
  Modelled from the spec: \<open>sf_active\<close> (defined outside the source file) recomputes
  \<open>active_count\<close> from the current flags.
\<close>

definition sf_active :: "pcover \<Rightarrow> pcover" where
  "sf_active A = A\<lparr>active_count := int (length (filter (\<lambda>p. TESTP p ACTIVE) (sets A)))\<rparr>"

text \<open>
  The cofactor of a cover against part \<open>i\<close> of the output variable: for every cube
  that has part \<open>i\<close>, a fresh cube with the output parts cleared and part \<open>i\<close> set.
  For \<open>F\<close> the table \<open>F_cube_table\<close> remembers the index of the original cube.
\<close>

definition cofactor_table :: "nat \<Rightarrow> pcover \<Rightarrow> nat list" where
  "cofactor_table i F = filter (\<lambda>k. i \<in> bits (sets F ! k)) [0 ..< length (sets F)]"

definition cofactor :: "cube_struct \<Rightarrow> nat \<Rightarrow> pcover \<Rightarrow> pcover" where
  "cofactor g i F =
     \<lparr>sets = map (\<lambda>k. \<lparr>bits = insert i (bits (sets F ! k) - var_mask g (output_var g)), flags = {}\<rparr>)
               (cofactor_table i F),
      active_count = 0\<rparr>"

text \<open>
  One round of the loop of \<open>mv_reduce\<close> over the parts of the output variable: the
  cubes that \<open>mark_irredundant\<close> left without \<open>ACTIVE\<close> in the cofactor lose part
  \<open>i\<close> and the flag \<open>PRIME\<close> in \<open>F\<close>.
\<close>

definition mv_reduce_part :: "extern \<Rightarrow> cube_struct \<Rightarrow> pcover \<Rightarrow> pcover \<Rightarrow> nat \<Rightarrow> pcover" where
  "mv_reduce_part ext g D F i =
     (let F1 = mark_irredundant ext (cofactor g i F) (cofactor g i D);
          redundant = map fst (filter (\<lambda>(k, p1). \<not> TESTP p1 ACTIVE)
                                 (zip (cofactor_table i F) (sets F1)))
      in F\<lparr>sets := foldl (\<lambda>ps k. ps[k := RESET ((ps ! k)\<lparr>bits := bits (ps ! k) - {i}\<rparr>) PRIME])
                       (sets F) redundant\<rparr>)"

definition mv_reduce :: "extern \<Rightarrow> cube_struct \<Rightarrow> pcover \<Rightarrow> pcover \<Rightarrow> pcover" where
  "mv_reduce ext g F D =
     (let F1 = foldl (mv_reduce_part ext g D) F
                 [first_part g ! output_var g ..< Suc (last_part g ! output_var g)];
          F2 = deactivate (\<lambda>p. setp_disjoint p (var_mask g (output_var g))) (sf_active F1)
      in if int (length (sets F2)) \<noteq> active_count F2 then sf_inactive F2 else F2)"

text \<open>
  \<open>make_sparse\<close>. The local \<open>cost\<close> is never assigned before it is read, so its
  \<open>total\<close> is an indeterminate value, the parameter \<open>cost\<close> here; \<open>best_cost\<close>
  starts as the cost of \<open>F\<close>. \<open>copy_cost(&cost, &best_cost)\<close> makes the two equal
  (here: \<open>best_cost\<close> takes the value of \<open>cost\<close>).
\<close>

function make_sparse_loop ::
  "extern \<Rightarrow> cube_struct \<Rightarrow> int \<Rightarrow> int \<Rightarrow> pcover \<Rightarrow> pcover \<Rightarrow> pcover \<Rightarrow> error + pcover" where
  "make_sparse_loop ext g cost best_cost F D R =
     (let F1 = mv_reduce ext g F D in
      if cost = best_cost then Inr F1
      else
        (let best_cost1 = cost in
         case expand ext g F1 R True of
           Inl e \<Rightarrow> Inl e
         | Inr (F2, R2) \<Rightarrow>
             if cost = best_cost1 then Inr F2
             else (let best_cost2 = cost in make_sparse_loop ext g cost best_cost2 F2 D R2)))"
  by pat_completeness auto
termination
  by (relation "{}") auto

declare make_sparse_loop.simps [simp del]

definition make_sparse ::
  "extern \<Rightarrow> cube_struct \<Rightarrow> int \<Rightarrow> pcover \<Rightarrow> pcover \<Rightarrow> pcover \<Rightarrow> error + pcover" where
  "make_sparse ext g cost F D R = make_sparse_loop ext g cost (cover_cost ext F) F D R"

section \<open>A small geometry for concrete runs\<close>

text \<open>
  Two binary inputs \<open>x0\<close> (parts 0, 1) and \<open>x1\<close> (parts 2, 3) and an output variable
  with the parts 4 and 5.
\<close>

definition g_ex :: cube_struct where
  "g_ex = \<lparr>cube_size = 6, first_part = [0, 2, 4], last_part = [1, 3, 5], output_var = 2\<rparr>"

text \<open>
  Instances of the external collaborators for concrete runs: \<open>mini_sort\<close> keeps the
  order, the rows are not unravelled and the cover returned for them is the union of all
  rows (it hits every non-empty row, also of the unravelled matrix), \<open>mark_irredundant\<close>
  marks every cube, the cost is the number of cubes.
\<close>

definition ext_ex :: extern where
  "ext_ex = \<lparr>mini_sort = (\<lambda>F. F), unravel_output = (\<lambda>B. B),
             do_sm_minimum_cover = (\<lambda>B. \<Union> (set B)),
             mark_irredundant = (\<lambda>F D. F\<lparr>sets := map (\<lambda>p. SET p ACTIVE) (sets F)\<rparr>),
             cover_cost = (\<lambda>F. int (length (sets F)))\<rparr>"

definition cover_of :: "nat set list \<Rightarrow> pcover" where
  "cover_of cs = \<lparr>sets = map (\<lambda>c. \<lparr>bits = c, flags = {}\<rparr>) cs, active_count = int (length cs)\<rparr>"

text \<open>
  One binary input (parts 0, 1) and an output variable with the 502 parts \<open>2..503\<close>,
  with one OFF-set cube that has 501 of them.
\<close>

definition g_wide :: cube_struct where
  "g_wide = \<lparr>cube_size = 504, first_part = [0, 2], last_part = [1, 503], output_var = 1\<rparr>"

definition BB_wide :: pcover where
  "BB_wide = \<lparr>sets = [\<lparr>bits = insert 0 {3 .. 503}, flags = {ACTIVE}\<rparr>], active_count = 1\<rparr>"

text \<open>Two active OFF-set cubes over \<open>g_ex\<close>.\<close>

definition BB_small :: pcover where
  "BB_small = \<lparr>sets = [\<lparr>bits = {0, 2, 3, 4}, flags = {ACTIVE}\<rparr>, \<lparr>bits = {0, 2, 4}, flags = {ACTIVE}\<rparr>],
               active_count = 2\<rparr>"

section \<open>\<open>most_frequent\<close>\<close>

lemma most_frequent_NULL_scan:
  assumes "finite FREESET"
  shows "foldl (\<lambda>(best_part, best_count) i.
                   if i \<in> FREESET \<and> part_count None i > best_count
                   then (int i, part_count None i) else (best_part, best_count))
            (- 1, - 1) [0 ..< n]
         = (if \<exists>i<n. i \<in> FREESET then (int (Min FREESET), 0) else (- 1, - 1))"
proof (induction n)
  case 0
  then show ?case by simp
next
  case (Suc n)
  show ?case
  proof (cases "\<exists>i<n. i \<in> FREESET")
    case True
    then have "\<exists>i<Suc n. i \<in> FREESET" using less_Suc_eq by blast
    with True Suc show ?thesis by (simp add: part_count_def)
  next
    case False
    show ?thesis
    proof (cases "n \<in> FREESET")
      case True
      have "Min FREESET = n"
        using assms True False by (intro Min_eqI) (auto simp: not_less)
      with True False Suc show ?thesis by (auto simp: part_count_def)
    next
      case nin: False
      with False have "\<not> (\<exists>i<Suc n. i \<in> FREESET)" using less_Suc_eq by blast
      with False nin Suc show ?thesis by (simp add: part_count_def)
    qed
  qed
qed

lemma most_frequent_no_free:
  "fst (foldl (\<lambda>(best_part, best_count) i.
                   if i \<in> {} \<and> part_count CC i > best_count
                   then (int i, part_count CC i) else (best_part, best_count)) st xs) = fst st"
  by (induction xs arbitrary: st) auto

text \<open>
  Claim C10. For every \<open>CC\<close> (\<open>NULL\<close> included) \<open>most_frequent\<close> returns \<open>-1\<close> when
  \<open>FREESET\<close> has no part set; with \<open>CC = NULL\<close> and a non-empty \<open>FREESET\<close> (a bit
  vector over the parts below \<open>cube.size\<close>) it returns the smallest part of \<open>FREESET\<close>.
\<close>

theorem most_frequent_empty_and_first:
  "most_frequent g CC {} = - 1 \<and>
   (FREESET \<noteq> {} \<longrightarrow> FREESET \<subseteq> fullset g \<longrightarrow>
      most_frequent g None FREESET = int (Min FREESET))"
proof (intro conjI impI)
  show "most_frequent g CC {} = - 1"
    using most_frequent_no_free[of CC "(- 1, - 1)" "[0 ..< cube_size g]"]
    by (simp add: most_frequent_def)
next
  assume ne: "FREESET \<noteq> {}" and sub: "FREESET \<subseteq> fullset g"
  then have fin: "finite FREESET" by (auto simp: fullset_def intro: finite_subset)
  from ne sub have "\<exists>i<cube_size g. i \<in> FREESET" by (auto simp: fullset_def)
  with most_frequent_NULL_scan[OF fin, of "cube_size g"]
  show "most_frequent g None FREESET = int (Min FREESET)"
    by (simp add: most_frequent_def)
qed

theorem most_frequent_empty_and_first_witness:
  "most_frequent g_ex (Some \<lparr>sets = [\<lparr>bits = {1, 3, 5}, flags = {ACTIVE}\<rparr>], active_count = 1\<rparr>) {} = - 1 \<and>
   most_frequent g_ex None {2, 4} = 2"
  using most_frequent_empty_and_first[of g_ex "Some \<lparr>sets = [\<lparr>bits = {1, 3, 5}, flags = {ACTIVE}\<rparr>], active_count = 1\<rparr>" "{2, 4}"]
  by (simp add: fullset_def g_ex_def)

section \<open>The branches of \<open>mincov\<close>\<close>

lemma row_expansion_pos: "1 \<le> row_expansion g p"
  by (simp add: row_expansion_def)

lemma blows_up_iff:
  "nset \<le> 500 \<Longrightarrow>
   blows_up g rows nset \<longleftrightarrow>
     (\<exists>row\<in>set rows. 500 < row_expansion g row) \<or>
     (\<exists>k\<le>length rows. 500 < nset + sum_list (map (row_expansion g) (take k rows)))"
proof (induction rows arbitrary: nset)
  case Nil
  then show ?case by simp
next
  case (Cons p rest)
  let ?e = "row_expansion g p"
  have e: "(let dist = set_dist p (var_mask g (output_var g));
                expansion = (if dist > 1 then 1 * dist else 1)
            in if dist > 1 \<and> expansion > 500 then True
               else if nset + expansion > 500 then True
               else blows_up g rest (nset + expansion))
           = (if 500 < ?e then True else if 500 < nset + ?e then True else blows_up g rest (nset + ?e))"
    by (auto simp: Let_def row_expansion_def)
  show ?case
  proof (cases "500 < ?e \<or> 500 < nset + ?e")
    case True
    then have l: "blows_up g (p # rest) nset" using e by auto
    from True have "(\<exists>row\<in>set (p # rest). 500 < row_expansion g row) \<or>
       (\<exists>k\<le>length (p # rest). 500 < nset + sum_list (map (row_expansion g) (take k (p # rest))))"
    proof
      assume "500 < ?e" then show ?thesis by auto
    next
      assume "500 < nset + ?e"
      then have "500 < nset + sum_list (map (row_expansion g) (take 1 (p # rest)))" by simp
      then show ?thesis by (metis One_nat_def Suc_leI length_Cons zero_less_Suc)
    qed
    with l show ?thesis by blast
  next
    case False
    then have le: "nset + ?e \<le> 500" and ne: "\<not> 500 < ?e" by auto
    from False e have l: "blows_up g (p # rest) nset = blows_up g rest (nset + ?e)" by auto
    have "(\<exists>k\<le>length (p # rest). 500 < nset + sum_list (map (row_expansion g) (take k (p # rest))))
          \<longleftrightarrow> (\<exists>k\<le>length rest. 500 < nset + ?e + sum_list (map (row_expansion g) (take k rest)))"
      (is "?A \<longleftrightarrow> ?B")
    proof
      assume ?A
      then obtain k where k: "k \<le> length (p # rest)"
        "500 < nset + sum_list (map (row_expansion g) (take k (p # rest)))" by blast
      show ?B
      proof (cases k)
        case 0
        with k Cons.prems show ?thesis by simp
      next
        case (Suc k')
        with k show ?thesis by (auto simp: add.assoc)
      qed
    next
      assume ?B
      then obtain k where "k \<le> length rest" "500 < nset + ?e + sum_list (map (row_expansion g) (take k rest))"
        by blast
      then have "Suc k \<le> length (p # rest)"
        "500 < nset + sum_list (map (row_expansion g) (take (Suc k) (p # rest)))" by (auto simp: add.assoc)
      then show ?A by blast
    qed
    with Cons.IH[OF le] l ne show ?thesis by auto
  qed
qed

text \<open>
  Claim C6. With \<open>B\<close> the rows built from the active cubes of \<open>BB\<close>, \<open>mincov\<close>
  takes the heuristic branch precisely when some row has an expansion above 500 or a
  running sum \<open>nset\<close> (the sum over a prefix of the rows) exceeds 500. On that branch
  (called, as in \<open>expand1\<close>, with \<open>RAISE\<close> and \<open>FREESET\<close> disjoint and a free part
  left) the part \<open>most_frequent(NULL, FREESET)\<close> is inserted into \<open>RAISE\<close> and removed
  from \<open>FREESET\<close>, and the result is that of \<open>essen_parts\<close> with \<open>CC = NULL\<close>.
  Otherwise \<open>RAISE\<close> becomes \<open>RAISE | (FREESET - xlower)\<close> for the minimum cover
  \<open>xlower\<close> of the unravelled rows, \<open>FREESET\<close> becomes empty and \<open>BB->active_count\<close>
  becomes 0.
\<close>

theorem mincov_branches:
  "((\<exists>row\<in>set (mincov_rows g BB RAISE). 500 < row_expansion g row) \<or>
    (\<exists>k\<le>length (mincov_rows g BB RAISE).
        500 < sum_list (map (row_expansion g) (take k (mincov_rows g BB RAISE))))
    \<longrightarrow> RAISE \<inter> FREESET = {} \<longrightarrow> 0 \<le> most_frequent g None FREESET \<longrightarrow>
      mincov ext g BB RAISE FREESET =
        (case essen_parts g BB None (insert (nat (most_frequent g None FREESET)) RAISE)
                (FREESET - {nat (most_frequent g None FREESET)}) of
           Inl e \<Rightarrow> Inl e
         | Inr (BB2, CC2, FREESET2) \<Rightarrow>
             Inr (BB2, insert (nat (most_frequent g None FREESET)) RAISE, FREESET2))) \<and>
   (\<not> ((\<exists>row\<in>set (mincov_rows g BB RAISE). 500 < row_expansion g row) \<or>
       (\<exists>k\<le>length (mincov_rows g BB RAISE).
           500 < sum_list (map (row_expansion g) (take k (mincov_rows g BB RAISE)))))
    \<longrightarrow> mincov ext g BB RAISE FREESET =
          Inr (BB\<lparr>active_count := 0\<rparr>,
               RAISE \<union> (FREESET - do_sm_minimum_cover ext (unravel_output ext (mincov_rows g BB RAISE))),
               {}))"
proof -
  have b: "blows_up g (mincov_rows g BB RAISE) 0 \<longleftrightarrow>
     (\<exists>row\<in>set (mincov_rows g BB RAISE). 500 < row_expansion g row) \<or>
     (\<exists>k\<le>length (mincov_rows g BB RAISE).
        500 < sum_list (map (row_expansion g) (take k (mincov_rows g BB RAISE))))"
    using blows_up_iff[of 0 g "mincov_rows g BB RAISE"] by simp
  have d: "RAISE \<inter> FREESET = {} \<Longrightarrow> FREESET - insert x RAISE = FREESET - {x}" for x
    by auto
  show ?thesis
    unfolding b[symmetric]
    by (auto simp: mincov_def Let_def d split: sum.splits)
qed

lemma rows_wide: "mincov_rows g_wide BB_wide {1, 2} = [insert 0 {3 .. 503}]"
  by (simp add: mincov_rows_def BB_wide_def g_wide_def TESTP_def force_lower_def separating_def
        num_vars_def var_mask_def upt_rec[of 0] upt_rec[of 1])

lemma expansion_wide: "row_expansion g_wide (insert 0 {3 .. 503}) = 501"
  by (simp add: row_expansion_def set_dist_def g_wide_def var_mask_def)

lemma rows_small: "mincov_rows g_ex BB_small {1, 3, 5} = [{0, 4}, {0, 2, 4}]"
  by (simp add: mincov_rows_def BB_small_def g_ex_def TESTP_def force_lower_def separating_def
        num_vars_def var_mask_def upt_rec[of 0] upt_rec[of 1] upt_rec[of 2] insert_commute)

lemma expansion_small: "row_expansion g_ex {0, 4} = 1" "row_expansion g_ex {0, 2, 4} = 1"
  by (simp_all add: row_expansion_def set_dist_def g_ex_def var_mask_def)

theorem mincov_branches_witness:
  "mincov ext_ex g_wide BB_wide {1, 2} (insert 0 {3 .. 503}) =
     (case essen_parts g_wide BB_wide None
             (insert (nat (most_frequent g_wide None (insert 0 {3 .. 503}))) {1, 2})
             (insert 0 {3 .. 503} - {nat (most_frequent g_wide None (insert 0 {3 .. 503}))}) of
        Inl e \<Rightarrow> Inl e
      | Inr (BB2, CC2, FREESET2) \<Rightarrow>
          Inr (BB2, insert (nat (most_frequent g_wide None (insert 0 {3 .. 503}))) {1, 2}, FREESET2)) \<and>
   mincov ext_ex g_ex BB_small {1, 3, 5} {0, 2, 4} =
     Inr (BB_small\<lparr>active_count := 0\<rparr>, {1, 3, 5}, {})"
proof -
  have nn: "0 \<le> most_frequent g_wide None (insert 0 {3 .. 503})"
  proof -
    have "\<exists>i<504. i \<in> insert 0 {3 .. 503::nat}" by (intro exI[of _ 0]) simp
    then show ?thesis
      using most_frequent_NULL_scan[of "insert 0 {3 .. 503}" 504]
      by (simp add: most_frequent_def g_wide_def)
  qed
  have k: "\<not> 500 < sum_list (map (row_expansion g_ex) (take k [{0, 4}, {0, 2, 4}]))" for k
  proof (cases k)
    case 0
    then show ?thesis by simp
  next
    case (Suc k')
    then show ?thesis by (cases k') (simp_all add: expansion_small)
  qed
  have x: "do_sm_minimum_cover ext_ex (unravel_output ext_ex [{0, 4}, {0, 2, 4}]) = {0, 2, 4}"
    by (auto simp: ext_ex_def)
  have A: "mincov ext_ex g_wide BB_wide {1, 2} (insert 0 {3 .. 503}) =
     (case essen_parts g_wide BB_wide None
             (insert (nat (most_frequent g_wide None (insert 0 {3 .. 503}))) {1, 2})
             (insert 0 {3 .. 503} - {nat (most_frequent g_wide None (insert 0 {3 .. 503}))}) of
        Inl e \<Rightarrow> Inl e
      | Inr (BB2, CC2, FREESET2) \<Rightarrow>
          Inr (BB2, insert (nat (most_frequent g_wide None (insert 0 {3 .. 503}))) {1, 2}, FREESET2))"
  proof (rule mincov_branches[THEN conjunct1, rule_format])
    show "(\<exists>row\<in>set (mincov_rows g_wide BB_wide {1, 2}). 500 < row_expansion g_wide row) \<or>
          (\<exists>k\<le>length (mincov_rows g_wide BB_wide {1, 2}).
             500 < sum_list (map (row_expansion g_wide) (take k (mincov_rows g_wide BB_wide {1, 2}))))"
      unfolding rows_wide using expansion_wide by simp
    show "{1, 2} \<inter> insert 0 {3 .. 503} = ({}::nat set)" by simp
    show "0 \<le> most_frequent g_wide None (insert 0 {3 .. 503})" by (rule nn)
  qed
  have B: "mincov ext_ex g_ex BB_small {1, 3, 5} {0, 2, 4} =
     Inr (BB_small\<lparr>active_count := 0\<rparr>,
          {1, 3, 5} \<union> ({0, 2, 4} - do_sm_minimum_cover ext_ex
                                     (unravel_output ext_ex (mincov_rows g_ex BB_small {1, 3, 5}))), {})"
  proof (rule mincov_branches[THEN conjunct2, rule_format])
    show "\<not> ((\<exists>row\<in>set (mincov_rows g_ex BB_small {1, 3, 5}). 500 < row_expansion g_ex row) \<or>
          (\<exists>k\<le>length (mincov_rows g_ex BB_small {1, 3, 5}).
             500 < sum_list (map (row_expansion g_ex) (take k (mincov_rows g_ex BB_small {1, 3, 5})))))"
      unfolding rows_small using expansion_small k by simp
  qed
  have "{1, 3, 5} \<union> ({0, 2, 4} - do_sm_minimum_cover ext_ex
            (unravel_output ext_ex (mincov_rows g_ex BB_small {1, 3, 5}))) = ({1, 3, 5}::nat set)"
    unfolding rows_small x by auto
  with A B show ?thesis by simp
qed

section \<open>The fatal condition\<close>

lemma cdist01_0: "cdist01 g a b = 0 \<longleftrightarrow> cdist0 g a b"
  by (cases "separating g a b") (auto simp: cdist01_def cdist0_def)

lemma cdist0_le1: "cdist0 g a b \<Longrightarrow> cdist01 g a b \<le> 1"
  by (simp add: cdist01_def cdist0_def)

text \<open>
  Claim C3, as amended. \<open>essen_parts\<close> aborts (\<open>fatal\<close>) exactly when an active cube
  of \<open>BB\<close> is at distance 0 from the raising cube \<open>RAISE\<close>, and this is its only
  failure. \<open>feasibly_covered\<close> does not abort: it returns \<open>FALSE\<close> exactly when an
  active cube of \<open>BB\<close> is at distance 0 from \<open>RAISE | c\<close>.
\<close>

theorem fatal_in_essen_parts_only:
  "(essen_parts g BB CC RAISE FREESET = Inl e \<longleftrightarrow>
      e = Fatal_not_orthogonal \<and> (\<exists>p\<in>set (sets BB). TESTP p ACTIVE \<and> cdist0 g (bits p) RAISE)) \<and>
   (feasibly_covered g BB c RAISE = None \<longleftrightarrow>
      (\<exists>p\<in>set (sets BB). TESTP p ACTIVE \<and> cdist0 g (bits p) (RAISE \<union> c)))"
proof
  show "essen_parts g BB CC RAISE FREESET = Inl e \<longleftrightarrow>
      e = Fatal_not_orthogonal \<and> (\<exists>p\<in>set (sets BB). TESTP p ACTIVE \<and> cdist0 g (bits p) RAISE)"
    using cdist0_le1[of g _ RAISE]
    by (auto simp: essen_parts_def Let_def list_ex_iff cdist01_0 split: prod.splits)
  show "feasibly_covered g BB c RAISE = None \<longleftrightarrow>
      (\<exists>p\<in>set (sets BB). TESTP p ACTIVE \<and> cdist0 g (bits p) (RAISE \<union> c))"
    using cdist0_le1[of g _ "RAISE \<union> c"]
    by (auto simp: feasibly_covered_def Let_def list_ex_iff cdist01_0)
qed

text \<open>
  The claim as stated fails: an ON-set of two cubes and an OFF-set cube orthogonal to
  both. While the first cube is expanded, \<open>feasibly_covered\<close> meets the OFF-set cube
  at distance 0 from \<open>RAISE | c\<close> for the second cube \<open>c\<close>; it answers \<open>FALSE\<close>, and
  \<open>expand\<close> returns its cover.
\<close>

definition F_c3 :: pcover where "F_c3 = cover_of [{1, 3, 4}, {0, 2, 5}]"
definition R_c3 :: pcover where "R_c3 = cover_of [{0, 2, 4}]"

theorem feasibly_covered_not_fatal:
  "cdist0 g_ex {0, 2, 4} ({1, 3, 4, 5} \<union> {0, 2, 5}) \<and>
   feasibly_covered g_ex \<lparr>sets = [\<lparr>bits = {0, 2, 4}, flags = {ACTIVE}\<rparr>], active_count = 1\<rparr>
     {0, 2, 5} {1, 3, 4, 5} = None \<and>
   expand ext_ex g_ex F_c3 R_c3 False =
     Inr (\<lparr>sets = [\<lparr>bits = {0, 1, 3, 4, 5}, flags = {PRIME, ACTIVE, NONESSEN}\<rparr>,
                   \<lparr>bits = {0, 1, 2, 3, 5}, flags = {PRIME, ACTIVE}\<rparr>], active_count = 2\<rparr>,
          \<lparr>sets = [\<lparr>bits = {0, 2, 4}, flags = {}\<rparr>], active_count = 0\<rparr>)"
  by code_simp

theorem fatal_in_essen_parts_only_witness:
  "essen_parts g_ex \<lparr>sets = [\<lparr>bits = {1, 2, 3, 5}, flags = {ACTIVE}\<rparr>], active_count = 1\<rparr> None
     {1, 2, 3, 5} {0, 4} = Inl Fatal_not_orthogonal \<and>
   feasibly_covered g_ex \<lparr>sets = [\<lparr>bits = {0, 2, 4}, flags = {ACTIVE}\<rparr>], active_count = 1\<rparr>
     {0, 2, 5} {1, 3, 4, 5} = None"
proof -
  have a: "cdist0 g_ex {1, 2, 3, 5} {1, 2, 3, 5}" by code_simp
  have b: "cdist0 g_ex {0, 2, 4} ({1, 3, 4, 5} \<union> {0, 2, 5})" by code_simp
  show ?thesis
    using fatal_in_essen_parts_only[where g = g_ex
           and BB = "\<lparr>sets = [\<lparr>bits = {1, 2, 3, 5}, flags = {ACTIVE}\<rparr>], active_count = 1\<rparr>"
           and CC = None and RAISE = "{1, 2, 3, 5}" and FREESET = "{0, 4}" and e = Fatal_not_orthogonal]
       fatal_in_essen_parts_only[where g = g_ex
           and BB = "\<lparr>sets = [\<lparr>bits = {0, 2, 4}, flags = {ACTIVE}\<rparr>], active_count = 1\<rparr>"
           and c = "{0, 2, 5}" and RAISE = "{1, 3, 4, 5}"] a b
    by (simp add: TESTP_def)
qed

section \<open>Invariants of the expansion\<close>

text \<open>
  The state of the blocking matrix during \<open>expand1\<close>: the counter agrees with the
  flags, and every cube that is no longer active is orthogonal to the over-expanded cube
  \<open>RAISE | FREESET\<close>.
\<close>

definition bb_inv :: "cube_struct \<Rightarrow> pcover \<Rightarrow> nat set \<Rightarrow> nat set \<Rightarrow> bool" where
  "bb_inv g BB RAISE FREESET =
     (active_count BB = int (length (filter (\<lambda>p. TESTP p ACTIVE) (sets BB))) \<and>
      (\<forall>p\<in>set (sets BB). \<not> TESTP p ACTIVE \<longrightarrow> \<not> cdist0 g (bits p) (RAISE \<union> FREESET)))"

text \<open>After \<open>essen_parts\<close> every active cube of \<open>BB\<close> is at distance 2 or more from \<open>RAISE\<close>.\<close>

definition bb_far :: "cube_struct \<Rightarrow> pcover \<Rightarrow> nat set \<Rightarrow> bool" where
  "bb_far g BB RAISE =
     (\<forall>p\<in>set (sets BB). TESTP p ACTIVE \<longrightarrow> 2 \<le> length (separating g (bits p) RAISE))"

text \<open>
  The state of the covering matrix: an active cube lies inside \<open>RAISE | FREESET\<close> and is
  neither \<open>PRIME\<close> nor \<open>COVERED\<close>.
\<close>

definition cc_inv :: "pcover \<Rightarrow> nat set \<Rightarrow> nat set \<Rightarrow> bool" where
  "cc_inv CC RAISE FREESET =
     (\<forall>p\<in>set (sets CC). TESTP p ACTIVE \<longrightarrow>
        bits p \<subseteq> RAISE \<union> FREESET \<and> \<not> TESTP p PRIME \<and> \<not> TESTP p COVERED)"

text \<open>
  How the covering matrix changes while a cube is expanded: the bits and the \<open>PRIME\<close>
  flags stay, \<open>ACTIVE\<close> is only reset, \<open>COVERED\<close> is only set, and only on a cube
  that was active and lies inside \<open>RAISE\<close>.
\<close>

definition cc_evolves :: "nat set \<Rightarrow> pcover \<Rightarrow> pcover \<Rightarrow> bool" where
  "cc_evolves RAISE CC CC' =
     (length (sets CC') = length (sets CC) \<and>
      (\<forall>j<length (sets CC).
         bits (sets CC' ! j) = bits (sets CC ! j) \<and>
         TESTP (sets CC' ! j) PRIME = TESTP (sets CC ! j) PRIME \<and>
         (TESTP (sets CC' ! j) ACTIVE \<longrightarrow> TESTP (sets CC ! j) ACTIVE) \<and>
         (TESTP (sets CC ! j) COVERED \<longrightarrow> TESTP (sets CC' ! j) COVERED) \<and>
         (TESTP (sets CC' ! j) COVERED \<and> \<not> TESTP (sets CC ! j) COVERED \<longrightarrow>
            TESTP (sets CC ! j) ACTIVE \<and> \<not> TESTP (sets CC' ! j) ACTIVE \<and>
            bits (sets CC ! j) \<subseteq> RAISE)))"

text \<open>The invariant of the loops of \<open>expand1\<close>.\<close>

definition raise_inv :: "cube_struct \<Rightarrow> pcover \<Rightarrow> pcover \<Rightarrow> nat set \<Rightarrow> nat set \<Rightarrow> bool" where
  "raise_inv g BB CC RAISE FREESET =
     (bb_inv g BB RAISE FREESET \<and> bb_far g BB RAISE \<and> cc_inv CC RAISE FREESET \<and>
      RAISE \<inter> FREESET = {})"

text \<open>
  What \<open>mincov\<close> needs from \<open>unravel_output\<close> and \<open>do_sm_minimum_cover\<close>: the
  returned set is a cover of the unravelled rows. A row with the input parts \<open>I\<close> and
  the output parts \<open>O\<close> unravels into the rows \<open>I + {o}\<close> for \<open>o\<close> in \<open>O\<close> (the row
  itself when \<open>O\<close> is empty), so all of them are hit iff a part of \<open>I\<close> is chosen or
  all of \<open>O\<close> is.
\<close>

definition cover_ok :: "extern \<Rightarrow> cube_struct \<Rightarrow> bool" where
  "cover_ok ext g =
     (\<forall>B. \<forall>row\<in>set B. row \<noteq> {} \<longrightarrow>
        (row - var_mask g (output_var g)) \<inter> do_sm_minimum_cover ext (unravel_output ext B) \<noteq> {} \<or>
        (row \<inter> var_mask g (output_var g) \<noteq> {} \<and>
         row \<inter> var_mask g (output_var g) \<subseteq> do_sm_minimum_cover ext (unravel_output ext B)))"

text \<open>Every cube of \<open>BB\<close> is orthogonal to \<open>RAISE | FREESET\<close>.\<close>

definition bb_done :: "cube_struct \<Rightarrow> pcover \<Rightarrow> nat set \<Rightarrow> nat set \<Rightarrow> bool" where
  "bb_done g BB RAISE FREESET =
     (\<forall>p\<in>set (sets BB). \<not> cdist0 g (bits p) (RAISE \<union> FREESET))"

text \<open>A cube with at least one part in every variable.\<close>

definition in_every_var :: "cube_struct \<Rightarrow> nat set \<Rightarrow> bool" where
  "in_every_var g c = (\<forall>v<num_vars g. c \<inter> var_mask g v \<noteq> {})"

text \<open>
  The covering matrix during the expansion of cube \<open>i\<close>, compared with the cover
  \<open>expand1\<close> was called with.
\<close>

definition cc_started :: "nat \<Rightarrow> nat set \<Rightarrow> pcover \<Rightarrow> pcover \<Rightarrow> bool" where
  "cc_started i RAISE CC CC1 =
     (length (sets CC1) = length (sets CC) \<and>
      (\<forall>j<length (sets CC).
         bits (sets CC1 ! j) = bits (sets CC ! j) \<and>
         TESTP (sets CC1 ! j) PRIME = (j = i \<or> TESTP (sets CC ! j) PRIME) \<and>
         (TESTP (sets CC ! j) COVERED \<longrightarrow> TESTP (sets CC1 ! j) COVERED) \<and>
         (TESTP (sets CC1 ! j) COVERED \<and> \<not> TESTP (sets CC ! j) COVERED \<longrightarrow>
            j \<noteq> i \<and> \<not> TESTP (sets CC ! j) PRIME \<and> bits (sets CC ! j) \<subseteq> RAISE)))"

text \<open>The cover after \<open>expand1\<close> on cube \<open>i\<close>, compared with the cover before.\<close>

definition expanded :: "nat \<Rightarrow> pcover \<Rightarrow> pcover \<Rightarrow> bool" where
  "expanded i F F' =
     (length (sets F') = length (sets F) \<and>
      bits (sets F ! i) \<subseteq> bits (sets F' ! i) \<and>
      TESTP (sets F' ! i) PRIME \<and> \<not> TESTP (sets F' ! i) COVERED \<and>
      (\<forall>j<length (sets F). j \<noteq> i \<longrightarrow>
         bits (sets F' ! j) = bits (sets F ! j) \<and>
         TESTP (sets F' ! j) PRIME = TESTP (sets F ! j) PRIME \<and>
         (TESTP (sets F ! j) COVERED \<longrightarrow> TESTP (sets F' ! j) COVERED) \<and>
         (TESTP (sets F' ! j) COVERED \<and> \<not> TESTP (sets F ! j) COVERED \<longrightarrow>
            \<not> TESTP (sets F ! j) PRIME \<and> bits (sets F ! j) \<subseteq> bits (sets F' ! i))))"

text \<open>
  The cover after any number of rounds of the main loop of \<open>expand\<close>: cubes only grow, a
  cube that is \<open>PRIME\<close> or \<open>COVERED\<close> is not written any more, and a cube that became
  \<open>COVERED\<close> lies inside a cube that is \<open>PRIME\<close> and not \<open>COVERED\<close>.
\<close>

definition expand_rel :: "pcover \<Rightarrow> pcover \<Rightarrow> bool" where
  "expand_rel F F' =
     (length (sets F') = length (sets F) \<and>
      (\<forall>j<length (sets F).
         bits (sets F ! j) \<subseteq> bits (sets F' ! j) \<and>
         (TESTP (sets F ! j) PRIME \<or> TESTP (sets F ! j) COVERED \<longrightarrow>
            bits (sets F' ! j) = bits (sets F ! j)) \<and>
         (TESTP (sets F ! j) PRIME \<longrightarrow>
            TESTP (sets F' ! j) PRIME \<and>
            TESTP (sets F' ! j) COVERED = TESTP (sets F ! j) COVERED) \<and>
         (TESTP (sets F ! j) COVERED \<longrightarrow> TESTP (sets F' ! j) COVERED) \<and>
         (TESTP (sets F' ! j) COVERED \<and> \<not> TESTP (sets F ! j) COVERED \<longrightarrow>
            (\<exists>m<length (sets F). TESTP (sets F' ! m) PRIME \<and> \<not> TESTP (sets F' ! m) COVERED \<and>
                bits (sets F' ! j) \<subseteq> bits (sets F' ! m)))))"

text \<open>What is needed from \<open>mini_sort\<close>: the sorted cover has the cubes of its argument.\<close>

definition sort_ok :: "extern \<Rightarrow> bool" where
  "sort_ok ext = (\<forall>F. set (sets (mini_sort ext F)) = set (sets F))"

text \<open>
  The cover \<open>F3\<close> at the end of the main loop of \<open>expand\<close> (before the compaction),
  compared position by position with the sorted cover \<open>S\<close>.
\<close>

definition expand_post :: "cube_struct \<Rightarrow> pcover \<Rightarrow> bool \<Rightarrow> pcover \<Rightarrow> bool" where
  "expand_post g S ns F3 =
     (length (sets F3) = length (sets S) \<and>
      (\<forall>j<length (sets F3).
         (TESTP (sets F3 ! j) PRIME \<or> TESTP (sets F3 ! j) COVERED) \<and>
         bits (sets S ! j) \<subseteq> bits (sets F3 ! j) \<and>
         (TESTP (sets F3 ! j) COVERED \<longrightarrow>
            (\<exists>m<length (sets F3). TESTP (sets F3 ! m) PRIME \<and> \<not> TESTP (sets F3 ! m) COVERED \<and>
                bits (sets F3 ! j) \<subseteq> bits (sets F3 ! m))) \<and>
         (TESTP (sets S ! j) PRIME \<longrightarrow> bits (sets F3 ! j) = bits (sets S ! j)) \<and>
         (ns \<longrightarrow> bits (sets F3 ! j) \<inter> var_mask g (output_var g)
                  = bits (sets S ! j) \<inter> var_mask g (output_var g))))"

subsection \<open>Preservation by the steps of \<open>expand1\<close> and \<open>expand\<close>\<close>

lemma cc_evolves_refl: "cc_evolves R CC CC"
  by (simp add: cc_evolves_def)

lemma cc_evolves_trans:
  "cc_evolves R1 CC CC' \<Longrightarrow> cc_evolves R2 CC' CC'' \<Longrightarrow> R1 \<subseteq> R2 \<Longrightarrow> cc_evolves R2 CC CC''"
  unfolding cc_evolves_def by (intro conjI allI impI; simp; blast)

lemma cc_evolves_mono: "cc_evolves R1 CC CC' \<Longrightarrow> R1 \<subseteq> R2 \<Longrightarrow> cc_evolves R2 CC CC'"
  unfolding cc_evolves_def by blast

lemma cc_inv_evolves:
  assumes "cc_inv CC R F" "cc_evolves R0 CC CC'"
  shows "cc_inv CC' R F"
  unfolding cc_inv_def
proof (intro ballI impI)
  fix p assume p: "p \<in> set (sets CC')" "TESTP p ACTIVE"
  then obtain j where j: "j < length (sets CC')" "p = sets CC' ! j" by (auto simp: in_set_conv_nth)
  with assms(2) have l: "j < length (sets CC)" by (simp add: cc_evolves_def)
  with assms(2) j p have a: "TESTP (sets CC ! j) ACTIVE" "bits p = bits (sets CC ! j)"
      "TESTP p PRIME = TESTP (sets CC ! j) PRIME"
      "TESTP p COVERED \<and> \<not> TESTP (sets CC ! j) COVERED \<longrightarrow> \<not> TESTP p ACTIVE"
    by (auto simp: cc_evolves_def)
  have m: "sets CC ! j \<in> set (sets CC)" using l by simp
  from assms(1) m a(1) have b: "bits (sets CC ! j) \<subseteq> R \<union> F" "\<not> TESTP (sets CC ! j) PRIME"
     "\<not> TESTP (sets CC ! j) COVERED" by (auto simp: cc_inv_def)
  show "bits p \<subseteq> R \<union> F \<and> \<not> TESTP p PRIME \<and> \<not> TESTP p COVERED"
    using a b p(2) by auto
qed

lemma cc_inv_mono: "cc_inv CC R F \<Longrightarrow> R \<union> F \<subseteq> R' \<union> F' \<Longrightarrow> cc_inv CC R' F'"
  unfolding cc_inv_def by blast

lemma sets_deactivate_nth:
  "j < length (sets A) \<Longrightarrow>
     sets (deactivate c A) ! j =
       (if TESTP (sets A ! j) ACTIVE \<and> c (bits (sets A ! j)) then RESET (sets A ! j) ACTIVE
        else sets A ! j)"
  by (simp add: deactivate_def)

lemma map_bits_deactivate [simp]: "map bits (sets (deactivate c A)) = map bits (sets A)"
  by (simp add: deactivate_def comp_def)

lemma count_filter_split:
  "int (length (filter P xs)) - int (length (filter (\<lambda>p. P p \<and> Q p) xs))
     = int (length (filter (\<lambda>p. P p \<and> \<not> Q p) xs))"
  by (induction xs) auto

lemma deactivate_count:
  assumes "active_count A = int (length (filter (\<lambda>p. TESTP p ACTIVE) (sets A)))"
  shows "active_count (deactivate c A)
           = int (length (filter (\<lambda>p. TESTP p ACTIVE) (sets (deactivate c A))))"
proof -
  have "filter (\<lambda>p. TESTP p ACTIVE)
          (map (\<lambda>p. if TESTP p ACTIVE \<and> c (bits p) then RESET p ACTIVE else p) xs)
        = filter (\<lambda>p. TESTP p ACTIVE \<and> \<not> c (bits p)) xs" for xs
    by (induction xs) auto
  then show ?thesis
    using assms count_filter_split[of "\<lambda>p. TESTP p ACTIVE" "sets A" "\<lambda>p. c (bits p)"]
    by (simp add: deactivate_def)
qed

lemma in_deactivate:
  assumes "p' \<in> set (sets (deactivate c A))"
  shows "\<exists>p\<in>set (sets A). bits p' = bits p \<and>
           (TESTP p' ACTIVE \<longleftrightarrow> TESTP p ACTIVE \<and> \<not> c (bits p)) \<and>
           (\<forall>f. f \<noteq> ACTIVE \<longrightarrow> TESTP p' f = TESTP p f)"
  using assms by (auto simp: deactivate_def)

lemma cc_evolves_deactivate: "cc_evolves R CC (deactivate c CC)"
  by (auto simp: cc_evolves_def sets_deactivate_nth)

lemma cdist0_iff: "cdist0 g a b \<longleftrightarrow> (\<forall>v<num_vars g. a \<inter> b \<inter> var_mask g v \<noteq> {})"
  by (auto simp: cdist0_def separating_def filter_empty_conv)

lemma cdist0_mono: "cdist0 g a b \<Longrightarrow> b \<subseteq> b' \<Longrightarrow> cdist0 g a b'"
  unfolding cdist0_iff by blast

lemma cdist01_le1_cases:
  "cdist01 g a b \<le> 1 \<longleftrightarrow> cdist0 g a b \<or> (\<exists>v. separating g a b = [v])"
proof -
  have "min 2 (length xs) \<le> 1 \<longleftrightarrow> xs = [] \<or> (\<exists>v. xs = [v])" for xs :: "nat list"
    by (cases xs; cases "tl xs") auto
  then show ?thesis by (simp add: cdist01_def cdist0_def)
qed

lemma cdist01_gt1: "\<not> cdist01 g a b \<le> 1 \<longleftrightarrow> 2 \<le> length (separating g a b)"
  by (auto simp: cdist01_def)

lemma bb_inv_deactivate_orth:
  assumes "bb_inv g BB R F"
  shows "bb_inv g (deactivate (\<lambda>p. \<not> cdist0 g p (R \<union> F)) BB) R F"
  using assms deactivate_count[of BB "\<lambda>p. \<not> cdist0 g p (R \<union> F)"]
  by (auto simp: bb_inv_def dest!: in_deactivate)

lemma elim_lowering_props:
  assumes "elim_lowering g BB CC R F = (BB', CC')" "bb_inv g BB R F"
  shows "bb_inv g BB' R F" "map bits (sets BB') = map bits (sets BB)"
    "\<And>p'. p' \<in> set (sets BB') \<Longrightarrow> TESTP p' ACTIVE \<Longrightarrow>
        \<exists>p\<in>set (sets BB). bits p' = bits p \<and> TESTP p ACTIVE"
    "CC = None \<Longrightarrow> CC' = None"
    "\<And>C. CC = Some C \<Longrightarrow> (\<forall>p\<in>set (sets C). TESTP p ACTIVE \<longrightarrow> \<not> TESTP p PRIME \<and> \<not> TESTP p COVERED)
        \<Longrightarrow> \<exists>C'. CC' = Some C' \<and> cc_inv C' R F \<and> cc_evolves R0 C C'"
proof -
  from assms have B: "BB' = deactivate (\<lambda>p. \<not> cdist0 g p (R \<union> F)) BB"
    and C: "CC' = map_option (deactivate (\<lambda>p. \<not> setp_implies p (R \<union> F))) CC"
    by (auto simp: elim_lowering_def Let_def)
  show "bb_inv g BB' R F" unfolding B by (rule bb_inv_deactivate_orth[OF assms(2)])
  show "map bits (sets BB') = map bits (sets BB)" unfolding B by simp
  show "\<exists>p\<in>set (sets BB). bits p' = bits p \<and> TESTP p ACTIVE"
    if "p' \<in> set (sets BB')" "TESTP p' ACTIVE" for p'
    using that in_deactivate[of p' _ BB] unfolding B by blast
  show "CC = None \<Longrightarrow> CC' = None" using C by simp
  show "\<exists>C'. CC' = Some C' \<and> cc_inv C' R F \<and> cc_evolves R0 C C'"
    if "CC = Some C" "\<forall>p\<in>set (sets C). TESTP p ACTIVE \<longrightarrow> \<not> TESTP p PRIME \<and> \<not> TESTP p COVERED" for C
  proof -
    have "cc_inv (deactivate (\<lambda>p. \<not> setp_implies p (R \<union> F)) C) R F"
      using that(2) by (auto simp: cc_inv_def setp_implies_def dest!: in_deactivate)
    then show ?thesis using C that(1) by (simp add: cc_evolves_deactivate)
  qed
qed

lemma essen_parts_unfold:
  assumes "essen_parts g BB CC R F = Inr (BB', CC', F')"
  defines "near \<equiv> filter (\<lambda>p. TESTP p ACTIVE \<and> cdist01 g (bits p) R \<le> 1) (sets BB)"
  defines "xlower \<equiv> foldl (\<lambda>x p. force_lower g x (bits p) R) {} near"
  defines "BB1 \<equiv> deactivate (\<lambda>p. cdist01 g p R \<le> 1) BB"
  shows "\<forall>p\<in>set (sets BB). TESTP p ACTIVE \<longrightarrow> \<not> cdist0 g (bits p) R"
    and "F' = F - xlower"
    and "xlower = {} \<Longrightarrow> BB' = BB1 \<and> CC' = CC"
    and "xlower \<noteq> {} \<Longrightarrow> elim_lowering g BB1 CC R (F - xlower) = (BB', CC')"
proof -
  from assms(1) have nf: "\<not> list_ex (\<lambda>p. cdist01 g (bits p) R = 0) near"
    by (auto simp: essen_parts_def Let_def near_def split: if_splits)
  show "\<forall>p\<in>set (sets BB). TESTP p ACTIVE \<longrightarrow> \<not> cdist0 g (bits p) R"
  proof (intro ballI impI notI)
    fix p assume p: "p \<in> set (sets BB)" "TESTP p ACTIVE" "cdist0 g (bits p) R"
    then have z: "cdist01 g (bits p) R = 0" by (simp add: cdist01_def cdist0_def)
    then have "p \<in> set near" using p by (simp add: near_def)
    with z nf show False unfolding list_ex_iff by blast
  qed
  from assms(1) nf show "F' = F - xlower"
    by (auto simp: essen_parts_def Let_def near_def xlower_def setp_empty_def split: if_splits prod.splits)
  from assms(1) nf show "xlower = {} \<Longrightarrow> BB' = BB1 \<and> CC' = CC"
    by (auto simp: essen_parts_def Let_def near_def xlower_def BB1_def setp_empty_def split: if_splits prod.splits)
  from assms(1) nf show "xlower \<noteq> {} \<Longrightarrow> elim_lowering g BB1 CC R (F - xlower) = (BB', CC')"
    by (auto simp: essen_parts_def Let_def near_def xlower_def BB1_def setp_empty_def split: if_splits prod.splits)
qed

lemma essen_parts_BB1:
  assumes "bb_inv g BB R F"
    and nf: "\<forall>p\<in>set (sets BB). TESTP p ACTIVE \<longrightarrow> \<not> cdist0 g (bits p) R"
  defines "near \<equiv> filter (\<lambda>p. TESTP p ACTIVE \<and> cdist01 g (bits p) R \<le> 1) (sets BB)"
  defines "xlower \<equiv> foldl (\<lambda>x p. force_lower g x (bits p) R) {} near"
  defines "BB1 \<equiv> deactivate (\<lambda>p. cdist01 g p R \<le> 1) BB"
  shows "bb_inv g BB1 R (F - xlower)" "bb_far g BB1 R"
proof -
  have cnt: "active_count BB1 = int (length (filter (\<lambda>p. TESTP p ACTIVE) (sets BB1)))"
    unfolding BB1_def using assms(1) by (intro deactivate_count) (simp add: bb_inv_def)
  have orth: "\<not> cdist0 g (bits p') (R \<union> (F - xlower))"
    if "p' \<in> set (sets BB1)" "\<not> TESTP p' ACTIVE" for p'
  proof -
    from in_deactivate[OF that(1)[unfolded BB1_def]] obtain p where
      p: "p \<in> set (sets BB)" "bits p' = bits p"
         "TESTP p' ACTIVE \<longleftrightarrow> TESTP p ACTIVE \<and> \<not> cdist01 g (bits p) R \<le> 1" by blast
    show ?thesis
    proof (cases "TESTP p ACTIVE")
      case False
      with assms(1) p(1) have "\<not> cdist0 g (bits p) (R \<union> F)" by (auto simp: bb_inv_def)
      then show ?thesis using cdist0_mono[of g "bits p" "R \<union> (F - xlower)" "R \<union> F"] p(2) by auto
    next
      case True
      with that(2) p(3) have le: "cdist01 g (bits p) R \<le> 1" by auto
      from le[unfolded cdist01_le1_cases] nf p(1) True
      obtain v where v: "separating g (bits p) R = [v]" by blast
      then have vs: "v < num_vars g" "bits p \<inter> R \<inter> var_mask g v = {}"
        using separating_iff[of v g "bits p" R] by auto
      have "p \<in> set near" using p(1) True le by (simp add: near_def)
      then have "bits p \<inter> var_mask g v \<subseteq> xlower"
        unfolding xlower_def force_lower_fold_eq using v by auto
      with vs have "bits p \<inter> (R \<union> (F - xlower)) \<inter> var_mask g v = {}" by auto
      with vs(1) show ?thesis using p(2) by (auto simp: cdist0_iff)
    qed
  qed
  show "bb_inv g BB1 R (F - xlower)" using cnt orth by (auto simp: bb_inv_def)
  show "bb_far g BB1 R"
    unfolding bb_far_def BB1_def
    by (auto dest!: in_deactivate simp: cdist01_gt1[symmetric])
qed

lemma bb_far_deactivate: "bb_far g BB R \<Longrightarrow> bb_far g (deactivate c BB) R"
  unfolding bb_far_def by (auto dest!: in_deactivate)

lemma essen_parts_props:
  assumes "essen_parts g BB CC R F = Inr (BB', CC', F')" "bb_inv g BB R F"
  shows "bb_inv g BB' R F'" "bb_far g BB' R" "F' \<subseteq> F" "map bits (sets BB') = map bits (sets BB)"
    "CC = None \<Longrightarrow> CC' = None"
    "\<And>C. CC = Some C \<Longrightarrow> cc_inv C R F \<Longrightarrow>
        \<exists>C'. CC' = Some C' \<and> cc_inv C' R F' \<and> cc_evolves R0 C C'"
proof -
  define near where "near = filter (\<lambda>p. TESTP p ACTIVE \<and> cdist01 g (bits p) R \<le> 1) (sets BB)"
  define xlower where "xlower = foldl (\<lambda>x p. force_lower g x (bits p) R) {} near"
  define BB1 where "BB1 = deactivate (\<lambda>p. cdist01 g p R \<le> 1) BB"
  note u = essen_parts_unfold[OF assms(1), folded near_def, folded xlower_def, folded BB1_def]
  note b = essen_parts_BB1[OF assms(2) u(1), folded near_def, folded xlower_def, folded BB1_def]
  have F': "F' = F - xlower" by (rule u(2))
  show "F' \<subseteq> F" using F' by auto
  show "bb_inv g BB' R F'" "bb_far g BB' R" "map bits (sets BB') = map bits (sets BB)"
       "CC = None \<Longrightarrow> CC' = None"
  proof -
    show "bb_inv g BB' R F'"
    proof (cases "xlower = {}")
      case True with u(3) b(1) F' show ?thesis by simp
    next
      case False
      from elim_lowering_props(1)[OF u(4)[OF False] b(1)] F' show ?thesis by simp
    qed
    show "bb_far g BB' R"
    proof (cases "xlower = {}")
      case True with u(3) b(2) show ?thesis by simp
    next
      case False
      from u(4)[OF False] have "BB' = deactivate (\<lambda>p. \<not> cdist0 g p (R \<union> (F - xlower))) BB1"
        by (auto simp: elim_lowering_def Let_def)
      then show ?thesis using bb_far_deactivate[OF b(2)] by simp
    qed
    show "map bits (sets BB') = map bits (sets BB)"
    proof (cases "xlower = {}")
      case True with u(3) show ?thesis by (simp add: BB1_def)
    next
      case False
      from elim_lowering_props(2)[OF u(4)[OF False] b(1)] show ?thesis by (simp add: BB1_def)
    qed
    show "CC = None \<Longrightarrow> CC' = None"
    proof (cases "xlower = {}")
      case True with u(3) show "CC = None \<Longrightarrow> CC' = None" by simp
    next
      case False
      from elim_lowering_props(4)[OF u(4)[OF False] b(1)] show "CC = None \<Longrightarrow> CC' = None" .
    qed
  qed
  show "\<exists>C'. CC' = Some C' \<and> cc_inv C' R F' \<and> cc_evolves R0 C C'"
    if "CC = Some C" "cc_inv C R F" for C
  proof (cases "xlower = {}")
    case True
    with u(3) F' that show ?thesis by (simp add: cc_evolves_refl)
  next
    case False
    have "\<forall>p\<in>set (sets C). TESTP p ACTIVE \<longrightarrow> \<not> TESTP p PRIME \<and> \<not> TESTP p COVERED"
      using that(2) by (auto simp: cc_inv_def)
    from elim_lowering_props(5)[OF u(4)[OF False] b(1) that(1) this] F' show ?thesis by simp
  qed
qed

lemma fold_union_bits: "foldl (\<lambda>x p. x \<union> bits p) x ps = x \<union> (\<Union>p\<in>set ps. bits p)"
  by (induction ps arbitrary: x) auto

lemma essen_raising_props:
  assumes "essen_raising BB R F = (R', F')"
  shows "R \<subseteq> R'" "R' \<union> F' = R \<union> F" "R \<inter> F = {} \<Longrightarrow> R' \<inter> F' = {}" "F' \<subseteq> F"
    "\<And>p. p \<in> set (sets BB) \<Longrightarrow> TESTP p ACTIVE \<Longrightarrow> bits p \<inter> R' = bits p \<inter> R"
  using assms by (auto simp: essen_raising_def Let_def fold_union_bits)

lemma separating_cong:
  "a \<inter> b' = a \<inter> b \<Longrightarrow> separating g a b' = separating g a b"
  by (simp add: separating_def)

lemma bb_far_essen_raising:
  assumes "essen_raising BB R F = (R', F')" "bb_far g BB R"
  shows "bb_far g BB R'"
  unfolding bb_far_def
proof (intro ballI impI)
  fix p assume p: "p \<in> set (sets BB)" "TESTP p ACTIVE"
  from essen_raising_props(5)[OF assms(1) p] have "separating g (bits p) R' = separating g (bits p) R"
    by (rule separating_cong)
  with assms(2) p show "2 \<le> length (separating g (bits p) R')" by (simp add: bb_far_def)
qed

lemma bb_inv_same_union: "bb_inv g BB R F \<Longrightarrow> R' \<union> F' \<subseteq> R \<union> F \<Longrightarrow> bb_inv g BB R' F'"
  unfolding bb_inv_def using cdist0_mono by blast

lemma feas_filter_evolves:
  "feas_filter g BB RAISE feas (CC, S, n, kept0) = (CC', S', n', kept') \<Longrightarrow>
     cc_evolves RAISE CC CC' \<and>
     (\<forall>x\<in>set kept'. x \<in> set kept0 \<or>
         (fst x < length (sets CC) \<and> TESTP (sets CC ! fst x) ACTIVE))"
proof (induction feas arbitrary: CC S n kept0)
  case Nil
  then show ?case by (auto simp: cc_evolves_refl)
next
  case (Cons i rest)
  show ?case
  proof (cases "i < length (sets CC) \<and> TESTP (sets CC ! i) ACTIVE")
    case False
    with Cons.prems have "feas_filter g BB RAISE rest (CC, S, n, kept0) = (CC', S', n', kept')"
      by auto
    from Cons.IH[OF this] show ?thesis .
  next
    case True
    note act = True
    show ?thesis
    proof (cases "bits (sets CC ! i) \<subseteq> RAISE")
      case True
      define CC1 where "CC1 = CC\<lparr>sets := (sets CC)[i := SET (RESET (sets CC ! i) ACTIVE) COVERED],
                 active_count := active_count CC - 1\<rparr>"
      from True act Cons.prems
      have "feas_filter g BB RAISE rest (CC1, S \<union> bits (sets CC ! i), n + 1, kept0) = (CC', S', n', kept')"
        by (simp add: setp_implies_def CC1_def Let_def)
      from Cons.IH[OF this]
      have ih: "cc_evolves RAISE CC1 CC'"
        "\<forall>x\<in>set kept'. x \<in> set kept0 \<or> (fst x < length (sets CC1) \<and> TESTP (sets CC1 ! fst x) ACTIVE)"
        by auto
      have e1: "cc_evolves RAISE CC CC1"
        using act True by (auto simp: cc_evolves_def CC1_def nth_list_update)
      have a1: "TESTP (sets CC1 ! j) ACTIVE \<Longrightarrow> j < length (sets CC1) \<Longrightarrow> TESTP (sets CC ! j) ACTIVE" for j
        by (cases "j = i") (auto simp: CC1_def)
      have l1: "length (sets CC1) = length (sets CC)" by (simp add: CC1_def)
      show ?thesis using cc_evolves_trans[OF e1 ih(1)] ih(2) a1 l1 by auto
    next
      case False
      note nimp = False
      show ?thesis
      proof (cases "feasibly_covered g BB (bits (sets CC ! i)) RAISE")
        case None
        with nimp act Cons.prems
        have "feas_filter g BB RAISE rest (CC, S, n, kept0) = (CC', S', n', kept')"
          by (simp add: setp_implies_def Let_def)
        from Cons.IH[OF this] show ?thesis .
      next
        case (Some nl)
        with nimp act Cons.prems
        have "feas_filter g BB RAISE rest (CC, S, n, kept0 @ [(i, nl)]) = (CC', S', n', kept')"
          by (simp add: setp_implies_def Let_def)
        from Cons.IH[OF this] act show ?thesis by auto
      qed
    qed
  qed
qed

lemma select_feasible_pass_return:
  assumes "select_feasible_pass g BB CC RAISE FREESET SUPER_CUBE num_covered feas bestfeas
             = Inr (Return (BB1, CC1, RAISE1, FREESET1, SUPER1, num1))"
  shows "BB1 = BB" "essen_raising BB RAISE FREESET = (RAISE1, FREESET1)"
        "\<exists>kept. feas_filter g BB RAISE1 feas (CC, SUPER_CUBE, num_covered, []) = (CC1, SUPER1, num1, kept)"
proof -
  obtain R1 F1 where er: "essen_raising BB RAISE FREESET = (R1, F1)" by (cases "essen_raising BB RAISE FREESET")
  obtain CCa Sa na kept where ff: "feas_filter g BB R1 feas (CC, SUPER_CUBE, num_covered, []) = (CCa, Sa, na, kept)"
    by (cases "feas_filter g BB R1 feas (CC, SUPER_CUBE, num_covered, [])") auto
  from assms er ff have "BB1 = BB \<and> R1 = RAISE1 \<and> F1 = FREESET1 \<and> CCa = CC1 \<and> Sa = SUPER1 \<and> na = num1"
    by (auto simp: select_feasible_pass_def Let_def split: if_splits option.splits sum.splits)
  with er ff show "BB1 = BB" "essen_raising BB RAISE FREESET = (RAISE1, FREESET1)"
        "\<exists>kept. feas_filter g BB RAISE1 feas (CC, SUPER_CUBE, num_covered, []) = (CC1, SUPER1, num1, kept)"
    by auto
qed

lemma select_feasible_pass_goto:
  assumes "select_feasible_pass g BB CC RAISE FREESET SUPER_CUBE num_covered feas bestfeas
             = Inr (Goto_loop (BB1, CC1, RAISE1, FREESET1, SUPER1, num1, feas1, bestfeas1))"
  obtains R1 F1 CCa kept b where
    "essen_raising BB RAISE FREESET = (R1, F1)"
    "feas_filter g BB R1 feas (CC, SUPER_CUBE, num_covered, []) = (CCa, SUPER1, num1, kept)"
    "b \<in> fst ` set kept" "RAISE1 = R1 \<union> bits (sets CCa ! b)"
    "essen_parts g BB (Some CCa) RAISE1 (F1 - RAISE1) = Inr (BB1, Some CC1, FREESET1)"
    "feas1 = map fst kept" "bestfeas1 = Some b"
proof -
  obtain R1 F1 where er: "essen_raising BB RAISE FREESET = (R1, F1)" by (cases "essen_raising BB RAISE FREESET")
  obtain CCa Sa na kept where ff: "feas_filter g BB R1 feas (CC, SUPER_CUBE, num_covered, []) = (CCa, Sa, na, kept)"
    by (cases "feas_filter g BB R1 feas (CC, SUPER_CUBE, num_covered, [])") auto
  obtain bc bs bf where bfe: "best_feasible CCa F1 kept kept (0, 9999, bestfeas) = (bc, bs, bf)"
    by (cases "best_feasible CCa F1 kept kept (0, 9999, bestfeas)") auto
  from assms er ff bfe have ne: "kept \<noteq> []"
    by (auto simp: select_feasible_pass_def Let_def split: if_splits)
  from assms er ff bfe ne obtain b where b: "bf = Some b"
    by (auto simp: select_feasible_pass_def Let_def split: option.splits)
  let ?R2 = "R1 \<union> bits (sets CCa ! b)"
  from assms er ff bfe ne b have
    ep: "essen_parts g BB (Some CCa) ?R2 (F1 - ?R2) = Inr (BB1, Some CC1, FREESET1)"
    and res: "RAISE1 = ?R2" "feas1 = map fst kept" "bestfeas1 = Some b" "Sa = SUPER1" "na = num1"
    by (auto simp: select_feasible_pass_def Let_def split: option.splits sum.splits)
  note fp = feas_filter_props[OF ff]
  from fp have bitsA: "\<And>j. bits (sets CCa ! j) = bits (sets CC ! j)"
    and keptp: "\<And>x. x \<in> set kept \<Longrightarrow>
          feasibly_covered g BB (bits (sets CC ! fst x)) R1 = Some (snd x)"
    by auto
  obtain x0 xs where kx: "kept = x0 # xs" using ne by (cases kept) auto
  have "snd x0 \<inter> bits (sets CCa ! fst x0) = {}"
    using feasibly_covered_disjoint[of g BB "bits (sets CC ! fst x0)" R1 "snd x0"] keptp[of x0] kx
    by (auto simp: bitsA)
  then have "fcc_count CCa kept (snd x0) \<ge> 1"
    by (simp add: fcc_count_def kx setp_disjoint_def)
  with best_feasible_props[OF bfe] kx have "0 < bc" by force
  with best_feasible_props[OF bfe] b have bin: "b \<in> fst ` set kept" by auto
  show ?thesis using that[OF er _ bin _ _ res(2,3)] ff ep res by simp
qed

lemma select_feasible_pass_inv:
  assumes inv: "raise_inv g BB CC RAISE FREESET"
  shows "select_feasible_pass g BB CC RAISE FREESET SUPER_CUBE num_covered feas bestfeas
             = Inr (Return (BB1, CC1, RAISE1, FREESET1, SUPER1, num1)) \<Longrightarrow>
         raise_inv g BB1 CC1 RAISE1 FREESET1 \<and> cc_evolves RAISE1 CC CC1 \<and>
         map bits (sets BB1) = map bits (sets BB) \<and>
         RAISE \<subseteq> RAISE1 \<and> RAISE1 \<union> FREESET1 \<subseteq> RAISE \<union> FREESET"
    and "select_feasible_pass g BB CC RAISE FREESET SUPER_CUBE num_covered feas bestfeas
             = Inr (Goto_loop (BB1, CC1, RAISE1, FREESET1, SUPER1, num1, feas1, bestfeas1)) \<Longrightarrow>
         raise_inv g BB1 CC1 RAISE1 FREESET1 \<and> cc_evolves RAISE1 CC CC1 \<and>
         map bits (sets BB1) = map bits (sets BB) \<and>
         RAISE \<subseteq> RAISE1 \<and> RAISE1 \<union> FREESET1 \<subseteq> RAISE \<union> FREESET"
proof -
  from inv have bi: "bb_inv g BB RAISE FREESET" and bf: "bb_far g BB RAISE"
    and ci: "cc_inv CC RAISE FREESET" and dj: "RAISE \<inter> FREESET = {}"
    by (auto simp: raise_inv_def)
  {
    assume a: "select_feasible_pass g BB CC RAISE FREESET SUPER_CUBE num_covered feas bestfeas
             = Inr (Return (BB1, CC1, RAISE1, FREESET1, SUPER1, num1))"
    note r = select_feasible_pass_return[OF a]
    note er = essen_raising_props[OF r(2)]
    from r(3) obtain kept where ff: "feas_filter g BB RAISE1 feas (CC, SUPER_CUBE, num_covered, []) = (CC1, SUPER1, num1, kept)"
      by blast
    from feas_filter_evolves[OF ff] have ev: "cc_evolves RAISE1 CC CC1" by simp
    have sub: "RAISE1 \<union> FREESET1 \<subseteq> RAISE \<union> FREESET" "RAISE \<union> FREESET \<subseteq> RAISE1 \<union> FREESET1"
      using er(2) by simp_all
    have "bb_inv g BB RAISE1 FREESET1" by (rule bb_inv_same_union[OF bi sub(1)])
    moreover have "bb_far g BB RAISE1" by (rule bb_far_essen_raising[OF r(2) bf])
    moreover have "cc_inv CC1 RAISE1 FREESET1"
      by (rule cc_inv_evolves[OF cc_inv_mono[OF ci sub(2)] ev])
    ultimately show "raise_inv g BB1 CC1 RAISE1 FREESET1 \<and> cc_evolves RAISE1 CC CC1 \<and>
         map bits (sets BB1) = map bits (sets BB) \<and>
         RAISE \<subseteq> RAISE1 \<and> RAISE1 \<union> FREESET1 \<subseteq> RAISE \<union> FREESET"
      using er(1,2) er(3)[OF dj] ev r(1) by (simp add: raise_inv_def)
  }
  {
    assume a: "select_feasible_pass g BB CC RAISE FREESET SUPER_CUBE num_covered feas bestfeas
             = Inr (Goto_loop (BB1, CC1, RAISE1, FREESET1, SUPER1, num1, feas1, bestfeas1))"
    from select_feasible_pass_goto[OF a] obtain R1 F1 CCa kept b where
      g: "essen_raising BB RAISE FREESET = (R1, F1)"
      "feas_filter g BB R1 feas (CC, SUPER_CUBE, num_covered, []) = (CCa, SUPER1, num1, kept)"
      "b \<in> fst ` set kept" "RAISE1 = R1 \<union> bits (sets CCa ! b)"
      "essen_parts g BB (Some CCa) RAISE1 (F1 - RAISE1) = Inr (BB1, Some CC1, FREESET1)"
      by metis
    note er = essen_raising_props[OF g(1)]
    note fe = feas_filter_evolves[OF g(2)]
    from fe have ev: "cc_evolves R1 CC CCa" by simp
    from fe g(3) have bact: "b < length (sets CC)" "TESTP (sets CC ! b) ACTIVE" by auto
    then have "bits (sets CC ! b) \<subseteq> RAISE \<union> FREESET" using ci by (auto simp: cc_inv_def)
    moreover have "bits (sets CCa ! b) = bits (sets CC ! b)" using ev bact by (simp add: cc_evolves_def)
    ultimately have bsub: "bits (sets CCa ! b) \<subseteq> R1 \<union> F1" using er(2) by simp
    have un: "RAISE1 \<union> (F1 - RAISE1) = RAISE \<union> FREESET" using g(4) bsub er(2) by auto
    have sub: "RAISE1 \<union> (F1 - RAISE1) \<subseteq> RAISE \<union> FREESET" "RAISE \<union> FREESET \<subseteq> RAISE1 \<union> (F1 - RAISE1)"
      using un by simp_all
    have bi1: "bb_inv g BB RAISE1 (F1 - RAISE1)" by (rule bb_inv_same_union[OF bi sub(1)])
    have cia: "cc_inv CCa RAISE1 (F1 - RAISE1)"
      by (rule cc_inv_evolves[OF cc_inv_mono[OF ci sub(2)] ev])
    note ep = essen_parts_props[OF g(5) bi1]
    from ep(6)[OF refl cia, of RAISE1] have ci1: "cc_inv CC1 RAISE1 FREESET1" and ev1: "cc_evolves RAISE1 CCa CC1"
      by auto
    have R1sub: "R1 \<subseteq> RAISE1" using g(4) by auto
    have "raise_inv g BB1 CC1 RAISE1 FREESET1"
      using ep(1,2,3) ci1 by (auto simp: raise_inv_def)
    moreover have "cc_evolves RAISE1 CC CC1" by (rule cc_evolves_trans[OF ev ev1 R1sub])
    moreover have "RAISE \<subseteq> RAISE1" using er(1) R1sub by auto
    moreover have "RAISE1 \<union> FREESET1 \<subseteq> RAISE \<union> FREESET" using ep(3) un by auto
    ultimately show "raise_inv g BB1 CC1 RAISE1 FREESET1 \<and> cc_evolves RAISE1 CC CC1 \<and>
         map bits (sets BB1) = map bits (sets BB) \<and>
         RAISE \<subseteq> RAISE1 \<and> RAISE1 \<union> FREESET1 \<subseteq> RAISE \<union> FREESET"
      using ep(4) by simp
  }
qed

lemma select_feasible_loop_inv:
  "raise_inv g BB CC RAISE FREESET \<Longrightarrow>
   select_feasible_loop g BB CC RAISE FREESET SUPER_CUBE num_covered feas bestfeas
     = Inr (BB', CC', RAISE', FREESET', SUPER', num') \<Longrightarrow>
   raise_inv g BB' CC' RAISE' FREESET' \<and> cc_evolves RAISE' CC CC' \<and>
   map bits (sets BB') = map bits (sets BB) \<and>
   RAISE \<subseteq> RAISE' \<and> RAISE' \<union> FREESET' \<subseteq> RAISE \<union> FREESET"
proof (induction g BB CC RAISE FREESET SUPER_CUBE num_covered feas bestfeas
        rule: select_feasible_loop.induct)
  case (1 g BB CC RAISE FREESET SUPER_CUBE num_covered feas bestfeas)
  show ?case
  proof (cases "select_feasible_pass g BB CC RAISE FREESET SUPER_CUBE num_covered feas bestfeas")
    case (Inl e)
    with "1.prems"(2) show ?thesis by (simp add: select_feasible_loop.simps[of g BB CC])
  next
    case (Inr x)
    show ?thesis
    proof (cases x)
      case (Return r)
      with Inr "1.prems"(2) have
        "select_feasible_pass g BB CC RAISE FREESET SUPER_CUBE num_covered feas bestfeas
           = Inr (Return (BB', CC', RAISE', FREESET', SUPER', num'))"
        by (simp add: select_feasible_loop.simps[of g BB CC])
      from select_feasible_pass_inv(1)[OF "1.prems"(1) this] show ?thesis .
    next
      case (Goto_loop s)
      obtain BB1 CC1 R1 F1 S1 n1 feas1 bf1 where s: "s = (BB1, CC1, R1, F1, S1, n1, feas1, bf1)"
        by (cases s) auto
      note p = Inr[unfolded Goto_loop s]
      note i1 = select_feasible_pass_inv(2)[OF "1.prems"(1) p]
      from p "1.prems"(2) have
        "select_feasible_loop g BB1 CC1 R1 F1 S1 n1 feas1 bf1 = Inr (BB', CC', RAISE', FREESET', SUPER', num')"
        by (simp add: select_feasible_loop.simps[of g BB CC])
      from "1.IH"[OF Inr Goto_loop, unfolded s, OF refl refl refl refl refl refl refl _ this] i1
      have i2: "raise_inv g BB' CC' RAISE' FREESET'" "cc_evolves RAISE' CC1 CC'"
        "map bits (sets BB') = map bits (sets BB1)" "R1 \<subseteq> RAISE'" "RAISE' \<union> FREESET' \<subseteq> R1 \<union> F1"
        by auto
      from i1 i2 cc_evolves_trans[of R1 CC CC1 RAISE' CC'] show ?thesis by auto
    qed
  qed
qed

lemma essen_parts_bits:
  "essen_parts g BB CC R F = Inr (BB', CC', F') \<Longrightarrow> map bits (sets BB') = map bits (sets BB)"
  by (auto simp: essen_parts_def Let_def elim_lowering_def split: if_splits)

lemma cover_loop_inv:
  "raise_inv g BB CC RAISE FREESET \<Longrightarrow>
   cover_loop g BB CC RAISE FREESET = Inr (BB', CC', RAISE', FREESET') \<Longrightarrow>
   raise_inv g BB' CC' RAISE' FREESET' \<and> cc_evolves RAISE' CC CC' \<and>
   map bits (sets BB') = map bits (sets BB) \<and>
   RAISE \<subseteq> RAISE' \<and> RAISE' \<union> FREESET' \<subseteq> RAISE \<union> FREESET"
proof (induction g BB CC RAISE FREESET rule: cover_loop.induct)
  case (1 g BB CC RAISE FREESET)
  show ?case
  proof (cases "active_count CC > 0")
    case False
    with "1.prems" show ?thesis
      by (simp add: cover_loop.simps[of g BB CC] cc_evolves_refl)
  next
    case True
    let ?b = "most_frequent g (Some CC) FREESET"
    from True "1.prems"(2) have nn: "\<not> ?b < 0"
      by (auto simp: cover_loop.simps[of g BB CC] Let_def split: if_splits)
    then have bF: "nat ?b \<in> FREESET" using most_frequent_nonneg[of g "Some CC" FREESET] by simp
    let ?R1 = "insert (nat ?b) RAISE" and ?F1 = "FREESET - {nat ?b}"
    from True nn "1.prems"(2) obtain BB2 CC2 F2 where
      ep: "essen_parts g BB (Some CC) ?R1 ?F1 = Inr (BB2, Some CC2, F2)"
      and rec: "cover_loop g BB2 CC2 ?R1 F2 = Inr (BB', CC', RAISE', FREESET')"
      by (auto simp: cover_loop.simps[of g BB CC] Let_def split: sum.splits option.splits)
    from "1.prems"(1) have bi: "bb_inv g BB RAISE FREESET" and ci: "cc_inv CC RAISE FREESET"
      and dj: "RAISE \<inter> FREESET = {}" by (auto simp: raise_inv_def)
    have un: "?R1 \<union> ?F1 \<subseteq> RAISE \<union> FREESET" "RAISE \<union> FREESET \<subseteq> ?R1 \<union> ?F1" using bF by auto
    have bi1: "bb_inv g BB ?R1 ?F1" by (rule bb_inv_same_union[OF bi un(1)])
    have ci1: "cc_inv CC ?R1 ?F1" by (rule cc_inv_mono[OF ci un(2)])
    note p = essen_parts_props[OF ep bi1]
    from p(6)[OF refl ci1, of ?R1] have ci2: "cc_inv CC2 ?R1 F2" and ev2: "cc_evolves ?R1 CC CC2" by auto
    have ri2: "raise_inv g BB2 CC2 ?R1 F2" using p(1,2,3) ci2 dj by (auto simp: raise_inv_def)
    from "1.IH"[OF True refl nn refl refl ep refl refl refl ri2 rec]
    have ih: "raise_inv g BB' CC' RAISE' FREESET'" "cc_evolves RAISE' CC2 CC'"
        "map bits (sets BB') = map bits (sets BB2)" "?R1 \<subseteq> RAISE'" "RAISE' \<union> FREESET' \<subseteq> ?R1 \<union> F2"
      by auto
    show ?thesis using ih p(3,4) un cc_evolves_trans[OF ev2 ih(2) ih(4)] by auto
  qed
qed

lemma bb_inv_done:
  assumes "bb_inv g BB R F" "\<not> active_count BB > 0"
  shows "bb_done g BB R F"
proof -
  from assms have "filter (\<lambda>p. TESTP p ACTIVE) (sets BB) = []" by (simp add: bb_inv_def)
  then have "\<forall>p\<in>set (sets BB). \<not> TESTP p ACTIVE" by (simp add: filter_empty_conv)
  with assms(1) show ?thesis by (auto simp: bb_inv_def bb_done_def)
qed

lemma geometry_binary:
  assumes "binary_geometry g" "v < num_vars g" "v \<noteq> output_var g"
  shows "var_mask g v = {first_part g ! v, Suc (first_part g ! v)}"
proof -
  have "last_part g ! v = Suc (first_part g ! v)"
    using assms by (auto simp: binary_geometry_def wf_cube_def binary_inputs_def list_all_iff)
  then show ?thesis by (auto simp: var_mask_def)
qed

lemma geometry_disjoint:
  assumes "binary_geometry g" "v < num_vars g" "w < num_vars g" "x \<in> var_mask g v" "x \<in> var_mask g w"
  shows "v = w"
proof -
  have "v = w \<or> var_mask g v \<inter> var_mask g w = {}"
    using assms(1,2,3) by (auto simp: binary_geometry_def wf_cube_def binary_inputs_def list_all_iff)
  with assms(4,5) show ?thesis by blast
qed

lemma geometry_output: "binary_geometry g \<Longrightarrow> output_var g < num_vars g"
  by (simp add: binary_geometry_def wf_cube_def binary_inputs_def)

lemma mincov_row: "force_lower g {} a b = (\<Union>v\<in>set (separating g a b). a \<inter> var_mask g v)"
  by (simp add: force_lower_eq)

lemma solver_orth:
  assumes wf: "binary_geometry g" and ok: "cover_ok ext g" and ev: "in_every_var g R"
    and act: "p \<in> set (sets BB)" "TESTP p ACTIVE" and sep: "separating g (bits p) R \<noteq> []"
  defines "X \<equiv> do_sm_minimum_cover ext (unravel_output ext (mincov_rows g BB R))"
  shows "\<not> cdist0 g (bits p) (R \<union> (F - X))"
proof (cases "\<exists>v\<in>set (separating g (bits p) R). bits p \<inter> var_mask g v = {}")
  case True
  then obtain v where "v < num_vars g" "bits p \<inter> var_mask g v = {}" by (auto simp: separating_iff)
  then show ?thesis by (auto simp: cdist0_iff)
next
  case False
  let ?row = "force_lower g {} (bits p) R"
  let ?out = "var_mask g (output_var g)"
  have rin: "?row \<in> set (mincov_rows g BB R)" using act by (auto simp: mincov_rows_def)
  show ?thesis
  proof -
    from sep obtain v0 where "v0 \<in> set (separating g (bits p) R)" by (cases "separating g (bits p) R") auto
    with False have "?row \<noteq> {}" unfolding mincov_row by blast
    with ok rin have "(?row - ?out) \<inter> X \<noteq> {} \<or> (?row \<inter> ?out \<noteq> {} \<and> ?row \<inter> ?out \<subseteq> X)"
      unfolding cover_ok_def X_def by blast
    then show ?thesis
    proof
      assume "(?row - ?out) \<inter> X \<noteq> {}"
      then obtain b v where b: "b \<in> X" "b \<notin> ?out" "v \<in> set (separating g (bits p) R)" "b \<in> bits p" "b \<in> var_mask g v"
        unfolding mincov_row by auto
      then have v: "v < num_vars g" "bits p \<inter> R \<inter> var_mask g v = {}" by (auto simp: separating_iff)
      have "v \<noteq> output_var g" using b by auto
      from geometry_binary[OF wf v(1) this] obtain f where m: "var_mask g v = {f, Suc f}" by blast
      from ev v(1) obtain r where r: "r \<in> R" "r \<in> var_mask g v" by (auto simp: in_every_var_def)
      have "bits p \<inter> var_mask g v = {b}"
        using m r b v(2) by auto
      with b(1) v(2) have "bits p \<inter> (R \<union> (F - X)) \<inter> var_mask g v = {}" by auto
      with v(1) show ?thesis by (auto simp: cdist0_iff)
    next
      assume a: "?row \<inter> ?out \<noteq> {} \<and> ?row \<inter> ?out \<subseteq> X"
      then obtain q v where q: "q \<in> ?out" "v \<in> set (separating g (bits p) R)" "q \<in> bits p" "q \<in> var_mask g v"
        unfolding mincov_row by auto
      then have v: "v < num_vars g" "bits p \<inter> R \<inter> var_mask g v = {}" by (auto simp: separating_iff)
      from geometry_disjoint[OF wf v(1) geometry_output[OF wf] q(4) q(1)] have vo: "v = output_var g" .
      with q(2) have "bits p \<inter> ?out \<subseteq> ?row" unfolding mincov_row by auto
      with a have "bits p \<inter> ?out \<subseteq> X" by auto
      with v(2) vo have "bits p \<inter> (R \<union> (F - X)) \<inter> ?out = {}" by auto
      with v(1) vo show ?thesis by (auto simp: cdist0_iff)
    qed
  qed
qed

lemma in_every_var_mono: "in_every_var g R \<Longrightarrow> R \<subseteq> R' \<Longrightarrow> in_every_var g R'"
  unfolding in_every_var_def by blast

lemma bb_done_bits:
  assumes "bb_done g BB R F" "map bits (sets BB') = map bits (sets BB)"
  shows "bb_done g BB' R F"
  unfolding bb_done_def
proof
  fix p assume "p \<in> set (sets BB')"
  then have "bits p \<in> set (map bits (sets BB'))" by simp
  then have "bits p \<in> set (map bits (sets BB))" by (simp only: assms(2))
  then obtain q where "q \<in> set (sets BB)" "bits q = bits p" by auto
  with assms(1) show "\<not> cdist0 g (bits p) (R \<union> F)" by (auto simp: bb_done_def)
qed

lemma mincov_frame:
  assumes "mincov ext g BB R F = Inr (BB', R', F')" "R \<inter> F = {}"
  shows "R \<subseteq> R'" "R' \<union> F' \<subseteq> R \<union> F" "R' \<inter> F' = {}" "map bits (sets BB') = map bits (sets BB)"
proof -
  show "R \<subseteq> R'" using assms(1)
    by (auto simp: mincov_def Let_def split: if_splits sum.splits)
  have "R' \<union> F' \<subseteq> R \<union> F \<and> R' \<inter> F' = {} \<and> map bits (sets BB') = map bits (sets BB)"
  proof (cases "blows_up g (mincov_rows g BB R) 0")
    case False
    with assms show ?thesis by (auto simp: mincov_def Let_def)
  next
    case True
    let ?b = "most_frequent g None F"
    from True assms(1) have nn: "0 \<le> ?b" by (auto simp: mincov_def Let_def split: if_splits)
    from True assms(1) nn obtain CCo where
      ep: "essen_parts g BB None (insert (nat ?b) R) (F - insert (nat ?b) R) = Inr (BB', CCo, F')"
      and r: "R' = insert (nat ?b) R"
      by (auto simp: mincov_def Let_def split: if_splits sum.splits)
    from essen_parts_FREESET[OF ep] most_frequent_nonneg[OF nn] essen_parts_bits[OF ep] r
    show ?thesis by auto
  qed
  then show "R' \<union> F' \<subseteq> R \<union> F" "R' \<inter> F' = {}" "map bits (sets BB') = map bits (sets BB)"
    by auto
qed

lemma mincov_inv:
  assumes m: "mincov ext g BB R F = Inr (BB', R', F')"
    and bi: "bb_inv g BB R F" and bf: "bb_far g BB R" and dj: "R \<inter> F = {}"
    and wf: "binary_geometry g" and ok: "cover_ok ext g" and ev: "in_every_var g R"
  shows "(bb_inv g BB' R' F' \<and> bb_far g BB' R') \<or> (active_count BB' = 0 \<and> bb_done g BB' R' F')"
proof (cases "blows_up g (mincov_rows g BB R) 0")
  case False
  define X where "X = do_sm_minimum_cover ext (unravel_output ext (mincov_rows g BB R))"
  from False m have r: "BB' = BB\<lparr>active_count := 0\<rparr>" "R' = R \<union> (F - X)" "F' = {}"
    by (auto simp: mincov_def Let_def X_def)
  have "\<not> cdist0 g (bits p) (R \<union> (F - X))" if p: "p \<in> set (sets BB)" for p
  proof (cases "TESTP p ACTIVE")
    case True
    with bf p have "separating g (bits p) R \<noteq> []" by (auto simp: bb_far_def)
    from solver_orth[OF wf ok ev p True this] show ?thesis by (simp add: X_def)
  next
    case False
    with bi p have "\<not> cdist0 g (bits p) (R \<union> F)" by (auto simp: bb_inv_def)
    then show ?thesis using cdist0_mono[of g "bits p" "R \<union> (F - X)" "R \<union> F"] by auto
  qed
  then show ?thesis using r by (simp add: bb_done_def)
next
  case True
  let ?b = "most_frequent g None F"
  from True m have nn: "0 \<le> ?b" by (auto simp: mincov_def Let_def split: if_splits)
  from True m nn obtain CCo where
    ep: "essen_parts g BB None (insert (nat ?b) R) (F - insert (nat ?b) R) = Inr (BB', CCo, F')"
    and r: "R' = insert (nat ?b) R"
    by (auto simp: mincov_def Let_def split: if_splits sum.splits)
  have "insert (nat ?b) R \<union> (F - insert (nat ?b) R) \<subseteq> R \<union> F"
    using most_frequent_nonneg[OF nn] by auto
  from essen_parts_props(1,2)[OF ep bb_inv_same_union[OF bi this]] r show ?thesis by simp
qed

lemma mincov_loop_inv:
  "bb_inv g BB R F \<Longrightarrow> bb_far g BB R \<Longrightarrow> R \<inter> F = {} \<Longrightarrow>
   binary_geometry g \<Longrightarrow> cover_ok ext g \<Longrightarrow> in_every_var g R \<Longrightarrow>
   mincov_loop ext g BB R F = Inr (BB', R', F') \<Longrightarrow>
   bb_done g BB' R' F'"
proof (induction ext g BB R F rule: mincov_loop.induct)
  case (1 ext g BB R F)
  show ?case
  proof (cases "active_count BB > 0")
    case False
    with "1.prems"(7) have "BB' = BB" "R' = R" "F' = F"
      by (simp_all add: mincov_loop.simps[of ext g BB])
    with bb_inv_done[OF "1.prems"(1) False] show ?thesis by simp
  next
    case True
    with "1.prems"(7) obtain BB1 R1 F1 where m: "mincov ext g BB R F = Inr (BB1, R1, F1)"
      and rec: "mincov_loop ext g BB1 R1 F1 = Inr (BB', R', F')"
      by (auto simp: mincov_loop.simps[of ext g BB] split: sum.splits)
    note fr = mincov_frame[OF m "1.prems"(3)]
    from mincov_inv[OF m "1.prems"(1,2,3,4,5,6)]
    show ?thesis
    proof
      assume a: "bb_inv g BB1 R1 F1 \<and> bb_far g BB1 R1"
      show ?thesis
        using "1.IH"[OF True m refl refl _ _ fr(3) "1.prems"(4,5)
                in_every_var_mono[OF "1.prems"(6) fr(1)] rec] a by simp
    next
      assume a: "active_count BB1 = 0 \<and> bb_done g BB1 R1 F1"
      with rec have "BB' = BB1" "R' = R1" "F' = F1"
        by (simp_all add: mincov_loop.simps[of ext g BB1])
      with a show ?thesis by simp
    qed
  qed
qed

lemma mincov_loop_frame:
  "R \<inter> F = {} \<Longrightarrow> mincov_loop ext g BB R F = Inr (BB', R', F') \<Longrightarrow>
   R \<subseteq> R' \<and> R' \<union> F' \<subseteq> R \<union> F \<and> R' \<inter> F' = {} \<and> map bits (sets BB') = map bits (sets BB)"
proof (induction ext g BB R F rule: mincov_loop.induct)
  case (1 ext g BB R F)
  show ?case
  proof (cases "active_count BB > 0")
    case False
    with "1.prems" show ?thesis by (simp add: mincov_loop.simps[of ext g BB])
  next
    case True
    with "1.prems"(2) obtain BB1 R1 F1 where m: "mincov ext g BB R F = Inr (BB1, R1, F1)"
      and rec: "mincov_loop ext g BB1 R1 F1 = Inr (BB', R', F')"
      by (auto simp: mincov_loop.simps[of ext g BB] split: sum.splits)
    note fr = mincov_frame[OF m "1.prems"(1)]
    from "1.IH"[OF True m refl refl fr(3) rec] fr show ?thesis by auto
  qed
qed

lemma cc_started_step:
  assumes "cc_started i R CC CCa" "cc_inv CCa Ra Fa" "cc_evolves R' CCa CCb" "R \<subseteq> R'"
  shows "cc_started i R' CC CCb"
proof -
  have len: "length (sets CCb) = length (sets CC)"
    using assms(1,3) by (simp add: cc_started_def cc_evolves_def)
  have "bits (sets CCb ! j) = bits (sets CC ! j) \<and>
        TESTP (sets CCb ! j) PRIME = (j = i \<or> TESTP (sets CC ! j) PRIME) \<and>
        (TESTP (sets CC ! j) COVERED \<longrightarrow> TESTP (sets CCb ! j) COVERED) \<and>
        (TESTP (sets CCb ! j) COVERED \<and> \<not> TESTP (sets CC ! j) COVERED \<longrightarrow>
            j \<noteq> i \<and> \<not> TESTP (sets CC ! j) PRIME \<and> bits (sets CC ! j) \<subseteq> R')"
    if j: "j < length (sets CC)" for j
  proof -
    from j have ja: "j < length (sets CCa)" using assms(1) by (simp add: cc_started_def)
    then have m: "sets CCa ! j \<in> set (sets CCa)" by simp
    note a = assms(1)[unfolded cc_started_def, THEN conjunct2, rule_format, OF j]
    note b = assms(3)[unfolded cc_evolves_def, THEN conjunct2, rule_format, OF ja]
    note c = assms(2)[unfolded cc_inv_def, rule_format, OF m]
    show ?thesis using a b c assms(4) by (cases "TESTP (sets CCa ! j) COVERED") auto
  qed
  with len show ?thesis unfolding cc_started_def by blast
qed

lemma expand1_start_props:
  assumes i: "i < length (sets CC)" and sub: "\<forall>p\<in>set (sets CC). bits p \<subseteq> fullset g"
    and st: "expand1_start g BB CC IL i = Inr (BB1, CC1, R1, F1)"
  shows "raise_inv g BB1 CC1 R1 F1" "R1 = bits (sets CC ! i)" "R1 \<union> F1 \<subseteq> fullset g"
    "F1 \<inter> IL = {}" "map bits (sets BB1) = map bits (sets BB)" "cc_started i R1 CC CC1"
proof -
  define CC0 where "CC0 = CC\<lparr>sets := (sets CC)[i := SET (sets CC ! i) PRIME]\<rparr>"
  define BBa where "BBa = BB\<lparr>active_count := int (length (sets BB)),
                  sets := map (\<lambda>p. SET p ACTIVE) (sets BB)\<rparr>"
  define CCa where "CCa = CC0\<lparr>active_count := int (length (sets CC0))
                       - int (length (filter (\<lambda>p. TESTP p COVERED \<or> TESTP p PRIME) (sets CC0))),
                  sets := map (\<lambda>p. if TESTP p COVERED \<or> TESTP p PRIME
                                    then RESET p ACTIVE else SET p ACTIVE) (sets CC0)\<rparr>"
  define R where "R = bits (sets CCa ! i)"
  define F where "F = fullset g - R"
  have Rb: "R = bits (sets CC ! i)" using i by (simp add: R_def CCa_def CC0_def)
  have stA: "cc_started i R CC CCa"
    using i by (auto simp: cc_started_def CCa_def CC0_def nth_list_update)
  have actA: "\<forall>p\<in>set (sets CCa). TESTP p ACTIVE \<longrightarrow> \<not> TESTP p PRIME \<and> \<not> TESTP p COVERED"
    by (auto simp: CCa_def)
  have subA: "\<forall>p\<in>set (sets CCa). bits p \<subseteq> fullset g"
  proof
    fix p assume "p \<in> set (sets CCa)"
    then obtain j where j: "j < length (sets CCa)" "p = sets CCa ! j" by (auto simp: in_set_conv_nth)
    with stA have "j < length (sets CC)" "bits p = bits (sets CC ! j)" by (auto simp: cc_started_def)
    with sub show "bits p \<subseteq> fullset g" by (metis nth_mem)
  qed
  have RF: "R \<union> F = fullset g" "R \<inter> F = {}" using Rb sub i by (auto simp: F_def)
  have ciA: "cc_inv CCa R F" using actA subA RF by (auto simp: cc_inv_def)
  have biA: "bb_inv g BBa R F'" for F'
  proof -
    have "filter (\<lambda>p. TESTP p ACTIVE) (map (\<lambda>p. SET p ACTIVE) xs) = map (\<lambda>p. SET p ACTIVE) xs" for xs
      by (induction xs) auto
    then show ?thesis by (auto simp: bb_inv_def BBa_def)
  qed
  obtain Fb BBb CCb where br: "(if \<not> setp_empty IL
              then (let FREESET1 = F - IL;
                        (BB2, CC2) = elim_lowering g BBa (Some CCa) R FREESET1
                    in (FREESET1, BB2, CC2))
              else (F, BBa, Some CCa)) = (Fb, BBb, CCb)"
    by (metis prod_cases3)
  have ep0: "(case essen_parts g BBb CCb R Fb of
           Inl e \<Rightarrow> Inl e
         | Inr (BB3, None, FREESET3) \<Rightarrow> Inl Null_cover
         | Inr (BB3, Some CC3, FREESET3) \<Rightarrow> Inr (BB3, CC3, R, FREESET3)) = Inr (BB1, CC1, R1, F1)"
    using st br unfolding expand1_start_def Let_def CC0_def[symmetric] BBa_def[symmetric]
      CCa_def[symmetric] R_def[symmetric] F_def[symmetric]
    by simp
  then have ep: "essen_parts g BBb CCb R Fb = Inr (BB1, Some CC1, F1)" and R1: "R1 = R"
    by (auto split: sum.splits option.splits)
  have b: "bb_inv g BBb R Fb \<and> map bits (sets BBb) = map bits (sets BB) \<and> Fb \<subseteq> F \<and> Fb \<inter> IL = {} \<and>
           (\<exists>C. CCb = Some C \<and> cc_inv C R Fb \<and> cc_evolves R CCa C)"
  proof (cases "setp_empty IL")
    case True
    with br have e: "Fb = F" "BBb = BBa" "CCb = Some CCa" by auto
    from ciA e biA True show ?thesis by (auto simp: BBa_def comp_def cc_evolves_refl setp_empty_def)
  next
    case False
    with br have e: "Fb = F - IL" "elim_lowering g BBa (Some CCa) R (F - IL) = (BBb, CCb)"
      by (auto simp: Let_def split: prod.splits)
    from elim_lowering_props(1,2)[OF e(2) biA] elim_lowering_props(5)[OF e(2) biA refl actA, of R] e(1)
    show ?thesis by (auto simp: BBa_def comp_def)
  qed
  then obtain C where C: "CCb = Some C" "cc_inv C R Fb" "cc_evolves R CCa C" by blast
  note p = essen_parts_props[OF ep conjunct1[OF b]]
  from p(6)[OF C(1,2), of R] have c1: "cc_inv CC1 R F1" "cc_evolves R C CC1" by auto
  show "R1 = bits (sets CC ! i)" using R1 Rb by simp
  show "raise_inv g BB1 CC1 R1 F1" using p(1,2,3) c1 b RF R1 by (auto simp: raise_inv_def)
  show "R1 \<union> F1 \<subseteq> fullset g" using p(3) b RF R1 by auto
  show "F1 \<inter> IL = {}" using p(3) b by auto
  show "map bits (sets BB1) = map bits (sets BB)" using p(4) b by simp
  have "cc_evolves R CCa CC1" by (rule cc_evolves_trans[OF C(3) c1(2) subset_refl])
  from cc_started_step[OF stA ciA this subset_refl] show "cc_started i R1 CC CC1" using R1 by simp
qed

lemma expand1_unfold:
  assumes "expand1 ext g BB CC IL i = Inr (BB', CC')"
  obtains BB1 CC1 R1 F1 BB2 CC2 R2 F2 S2 n2 BB3 CC3 R3 F3 BB4 R4 F4 c2 where
    "expand1_start g BB CC IL i = Inr (BB1, CC1, R1, F1)"
    "(if active_count CC1 > 0 then select_feasible g BB1 CC1 R1 F1 (bits (sets CC ! i)) 0
      else Inr (BB1, CC1, R1, F1, bits (sets CC ! i), 0)) = Inr (BB2, CC2, R2, F2, S2, n2)"
    "cover_loop g BB2 CC2 R2 F2 = Inr (BB3, CC3, R3, F3)"
    "mincov_loop ext g BB3 R3 F3 = Inr (BB4, R4, F4)"
    "BB' = BB4" "CC' = CC3\<lparr>sets := (sets CC3)[i := c2]\<rparr>"
    "bits c2 = R4 \<union> F4" "TESTP c2 PRIME" "\<not> TESTP c2 COVERED"
proof -
  from assms obtain BB1 CC1 R1 F1 where st: "expand1_start g BB CC IL i = Inr (BB1, CC1, R1, F1)"
    by (auto simp: expand1_def split: sum.splits)
  let ?sf = "(if active_count CC1 > 0 then select_feasible g BB1 CC1 R1 F1 (bits (sets CC ! i)) 0
      else Inr (BB1, CC1, R1, F1, bits (sets CC ! i), 0))"
  from assms st obtain BB2 CC2 R2 F2 S2 n2 where sf: "?sf = Inr (BB2, CC2, R2, F2, S2, n2)"
    by (cases ?sf) (auto simp: expand1_def Let_def split: sum.splits)
  from assms st sf obtain BB3 CC3 R3 F3 where cl: "cover_loop g BB2 CC2 R2 F2 = Inr (BB3, CC3, R3, F3)"
    by (cases "cover_loop g BB2 CC2 R2 F2") (auto simp: expand1_def Let_def split: sum.splits)
  from assms st sf cl obtain BB4 R4 F4 where ml: "mincov_loop ext g BB3 R3 F3 = Inr (BB4, R4, F4)"
    by (cases "mincov_loop ext g BB3 R3 F3") (auto simp: expand1_def Let_def split: sum.splits)
  define c1 where "c1 = RESET (SET ((sets CC3 ! i)\<lparr>bits := R4 \<union> F4\<rparr>) PRIME) COVERED"
  define c2 where "c2 = (if n2 = 0 \<and> \<not> setp_equal (bits c1) (R1 \<union> F1) then SET c1 NONESSEN else c1)"
  from assms st sf cl ml have r: "BB' = BB4" "CC' = CC3\<lparr>sets := (sets CC3)[i := c2]\<rparr>"
    by (auto simp: expand1_def Let_def c1_def c2_def split: sum.splits)
  have "bits c2 = R4 \<union> F4" "TESTP c2 PRIME" "\<not> TESTP c2 COVERED"
    by (auto simp: c2_def c1_def SET_def RESET_def TESTP_def)
  with that[OF st sf cl ml r] show ?thesis by blast
qed

lemma select_phase_inv:
  assumes "raise_inv g BB1 CC1 R1 F1"
    "(if active_count CC1 > 0 then select_feasible g BB1 CC1 R1 F1 S 0
      else Inr (BB1, CC1, R1, F1, S, 0)) = Inr (BB2, CC2, R2, F2, S2, n2)"
  shows "raise_inv g BB2 CC2 R2 F2 \<and> cc_evolves R2 CC1 CC2 \<and>
         map bits (sets BB2) = map bits (sets BB1) \<and> R1 \<subseteq> R2 \<and> R2 \<union> F2 \<subseteq> R1 \<union> F1"
proof (cases "active_count CC1 > 0")
  case True
  with assms(2) have "select_feasible_loop g BB1 CC1 R1 F1 S 0
       (filter (\<lambda>i. TESTP (sets CC1 ! i) ACTIVE) [0 ..< length (sets CC1)]) None
        = Inr (BB2, CC2, R2, F2, S2, n2)"
    by (simp add: select_feasible_def)
  from select_feasible_loop_inv[OF assms(1) this] show ?thesis .
next
  case False
  with assms show ?thesis by (simp add: cc_evolves_refl)
qed

lemma expand1_phases:
  assumes i: "i < length (sets CC)" and sub: "\<forall>p\<in>set (sets CC). bits p \<subseteq> fullset g"
    and st: "expand1_start g BB CC IL i = Inr (BB1, CC1, R1, F1)"
    and sf: "(if active_count CC1 > 0 then select_feasible g BB1 CC1 R1 F1 S 0
      else Inr (BB1, CC1, R1, F1, S, 0)) = Inr (BB2, CC2, R2, F2, S2, n2)"
    and cl: "cover_loop g BB2 CC2 R2 F2 = Inr (BB3, CC3, R3, F3)"
    and ml: "mincov_loop ext g BB3 R3 F3 = Inr (BB4, R4, F4)"
  shows "R1 = bits (sets CC ! i)" "R1 \<subseteq> R2" "R2 \<subseteq> R3" "R3 \<subseteq> R4"
    "R1 \<inter> F1 = {}" "R2 \<inter> F2 = {}" "R3 \<inter> F3 = {}" "R4 \<inter> F4 = {}"
    "R2 \<union> F2 \<subseteq> R1 \<union> F1" "R3 \<union> F3 \<subseteq> R2 \<union> F2" "R4 \<union> F4 \<subseteq> R3 \<union> F3"
    "R1 \<union> F1 \<subseteq> fullset g" "F1 \<inter> IL = {}"
    "map bits (sets BB4) = map bits (sets BB)" "cc_started i R3 CC CC3" "raise_inv g BB3 CC3 R3 F3"
proof -
  note s = expand1_start_props[OF i sub st]
  note p2 = select_phase_inv[OF s(1) sf]
  note p3 = cover_loop_inv[OF conjunct1[OF p2] cl]
  have d3: "R3 \<inter> F3 = {}" using p3 by (simp add: raise_inv_def)
  note p4 = mincov_loop_frame[OF d3 ml]
  show "R1 = bits (sets CC ! i)" by (rule s(2))
  show "R1 \<subseteq> R2" "R2 \<subseteq> R3" "R3 \<subseteq> R4" using p2 p3 p4 by auto
  show "R1 \<inter> F1 = {}" "R2 \<inter> F2 = {}" "R3 \<inter> F3 = {}" "R4 \<inter> F4 = {}"
    using s(1) p2 p3 p4 by (auto simp: raise_inv_def)
  show "R2 \<union> F2 \<subseteq> R1 \<union> F1" "R3 \<union> F3 \<subseteq> R2 \<union> F2" "R4 \<union> F4 \<subseteq> R3 \<union> F3"
    using p2 p3 p4 by auto
  show "R1 \<union> F1 \<subseteq> fullset g" "F1 \<inter> IL = {}" by (rule s(3), rule s(4))
  show "map bits (sets BB4) = map bits (sets BB)" using s(5) p2 p3 p4 by simp
  have ci1: "cc_inv CC1 R1 F1" and ci2: "cc_inv CC2 R2 F2" using s(1) p2 by (auto simp: raise_inv_def)
  have "cc_started i R2 CC CC2" using cc_started_step[OF s(6) ci1] p2 by blast
  then show "cc_started i R3 CC CC3" using cc_started_step[OF _ ci2] p3 by blast
  show "raise_inv g BB3 CC3 R3 F3" using p3 by simp
qed

lemma expand1_props:
  assumes i: "i < length (sets CC)" and sub: "\<forall>p\<in>set (sets CC). bits p \<subseteq> fullset g"
    and ex: "expand1 ext g BB CC IL i = Inr (BB', CC')"
  shows "expanded i CC CC'" "bits (sets CC' ! i) \<subseteq> fullset g"
    "bits (sets CC' ! i) \<inter> IL = bits (sets CC ! i) \<inter> IL"
    "map bits (sets BB') = map bits (sets BB)"
    "binary_geometry g \<Longrightarrow> cover_ok ext g \<Longrightarrow> in_every_var g (bits (sets CC ! i)) \<Longrightarrow>
       \<forall>r\<in>set (sets BB). \<not> cdist0 g (bits r) (bits (sets CC' ! i))"
proof -
  from expand1_unfold[OF ex] obtain BB1 CC1 R1 F1 BB2 CC2 R2 F2 S2 n2 BB3 CC3 R3 F3 BB4 R4 F4 c2 where
    u: "expand1_start g BB CC IL i = Inr (BB1, CC1, R1, F1)"
    "(if active_count CC1 > 0 then select_feasible g BB1 CC1 R1 F1 (bits (sets CC ! i)) 0
      else Inr (BB1, CC1, R1, F1, bits (sets CC ! i), 0)) = Inr (BB2, CC2, R2, F2, S2, n2)"
    "cover_loop g BB2 CC2 R2 F2 = Inr (BB3, CC3, R3, F3)"
    "mincov_loop ext g BB3 R3 F3 = Inr (BB4, R4, F4)"
    "BB' = BB4" "CC' = CC3\<lparr>sets := (sets CC3)[i := c2]\<rparr>"
    "bits c2 = R4 \<union> F4" "TESTP c2 PRIME" "\<not> TESTP c2 COVERED"
    by metis
  note ph = expand1_phases[OF i sub u(1,2,3,4)]
  have l3: "length (sets CC3) = length (sets CC)" using ph(15) by (simp add: cc_started_def)
  have ci: "sets CC' ! i = c2" using u(6) i l3 by simp
  have cj: "j \<noteq> i \<Longrightarrow> sets CC' ! j = sets CC3 ! j" for j using u(6) by simp
  have fin: "bits (sets CC' ! i) = R4 \<union> F4" using ci u(7) by simp
  have R3sub: "R3 \<subseteq> R4 \<union> F4" using ph(4) by auto
  show "expanded i CC CC'"
    unfolding expanded_def
  proof (intro conjI allI impI)
    show "length (sets CC') = length (sets CC)" using u(6) l3 by simp
    show "bits (sets CC ! i) \<subseteq> bits (sets CC' ! i)" using fin ph(1,2,3,4) by auto
    show "TESTP (sets CC' ! i) PRIME" "\<not> TESTP (sets CC' ! i) COVERED" using ci u(8,9) by simp_all
  next
    fix j assume j: "j < length (sets CC)" "j \<noteq> i"
    note a = ph(15)[unfolded cc_started_def, THEN conjunct2, rule_format, OF j(1)]
    show "bits (sets CC' ! j) = bits (sets CC ! j)" using a cj[OF j(2)] by simp
    show "TESTP (sets CC' ! j) PRIME = TESTP (sets CC ! j) PRIME" using a cj[OF j(2)] j(2) by simp
    show "TESTP (sets CC ! j) COVERED \<Longrightarrow> TESTP (sets CC' ! j) COVERED" using a cj[OF j(2)] by simp
    show "\<not> TESTP (sets CC ! j) PRIME"
      if "TESTP (sets CC' ! j) COVERED \<and> \<not> TESTP (sets CC ! j) COVERED"
      using that a cj[OF j(2)] by simp
    show "bits (sets CC ! j) \<subseteq> bits (sets CC' ! i)"
      if "TESTP (sets CC' ! j) COVERED \<and> \<not> TESTP (sets CC ! j) COVERED"
      using that a cj[OF j(2)] R3sub fin by auto
  qed
  show "bits (sets CC' ! i) \<subseteq> fullset g" using fin ph(9,10,11,12) by blast
  show "bits (sets CC' ! i) \<inter> IL = bits (sets CC ! i) \<inter> IL"
  proof -
    have "R4 \<union> F4 \<subseteq> R1 \<union> F1" using ph(9,10,11) by blast
    moreover have "R1 \<subseteq> R4 \<union> F4" using ph(2,3,4) by blast
    ultimately show ?thesis using fin ph(1,13) by auto
  qed
  show "map bits (sets BB') = map bits (sets BB)" using ph(14) u(5) by simp
  show "\<forall>r\<in>set (sets BB). \<not> cdist0 g (bits r) (bits (sets CC' ! i))"
    if wf: "binary_geometry g" and ok: "cover_ok ext g" and ev: "in_every_var g (bits (sets CC ! i))"
  proof -
    have ri: "bb_inv g BB3 R3 F3" "bb_far g BB3 R3" "R3 \<inter> F3 = {}"
      using ph(16) by (auto simp: raise_inv_def)
    have "in_every_var g R3" using in_every_var_mono[OF ev] ph(1,2,3) by blast
    from mincov_loop_inv[OF ri wf ok this u(4)] have "bb_done g BB4 R4 F4" .
    from bb_done_bits[OF this, of BB] ph(14) show ?thesis by (simp add: bb_done_def fin)
  qed
qed

lemma expand_rel_refl: "expand_rel F F"
  by (simp add: expand_rel_def)

lemma expand_rel_trans:
  assumes "expand_rel F F'" "expand_rel F' F''"
  shows "expand_rel F F''"
proof -
  have len: "length (sets F') = length (sets F)" "length (sets F'') = length (sets F)"
    using assms by (simp_all add: expand_rel_def)
  have r1: "\<And>j. j < length (sets F) \<Longrightarrow>
         bits (sets F ! j) \<subseteq> bits (sets F' ! j) \<and>
         (TESTP (sets F ! j) PRIME \<or> TESTP (sets F ! j) COVERED \<longrightarrow>
            bits (sets F' ! j) = bits (sets F ! j)) \<and>
         (TESTP (sets F ! j) PRIME \<longrightarrow>
            TESTP (sets F' ! j) PRIME \<and>
            TESTP (sets F' ! j) COVERED = TESTP (sets F ! j) COVERED) \<and>
         (TESTP (sets F ! j) COVERED \<longrightarrow> TESTP (sets F' ! j) COVERED) \<and>
         (TESTP (sets F' ! j) COVERED \<and> \<not> TESTP (sets F ! j) COVERED \<longrightarrow>
            (\<exists>m<length (sets F). TESTP (sets F' ! m) PRIME \<and> \<not> TESTP (sets F' ! m) COVERED \<and>
                bits (sets F' ! j) \<subseteq> bits (sets F' ! m)))"
    using assms(1) unfolding expand_rel_def by blast
  have r2: "\<And>j. j < length (sets F) \<Longrightarrow>
         bits (sets F' ! j) \<subseteq> bits (sets F'' ! j) \<and>
         (TESTP (sets F' ! j) PRIME \<or> TESTP (sets F' ! j) COVERED \<longrightarrow>
            bits (sets F'' ! j) = bits (sets F' ! j)) \<and>
         (TESTP (sets F' ! j) PRIME \<longrightarrow>
            TESTP (sets F'' ! j) PRIME \<and>
            TESTP (sets F'' ! j) COVERED = TESTP (sets F' ! j) COVERED) \<and>
         (TESTP (sets F' ! j) COVERED \<longrightarrow> TESTP (sets F'' ! j) COVERED) \<and>
         (TESTP (sets F'' ! j) COVERED \<and> \<not> TESTP (sets F' ! j) COVERED \<longrightarrow>
            (\<exists>m<length (sets F). TESTP (sets F'' ! m) PRIME \<and> \<not> TESTP (sets F'' ! m) COVERED \<and>
                bits (sets F'' ! j) \<subseteq> bits (sets F'' ! m)))"
    using assms(2) len unfolding expand_rel_def by simp
  have "bits (sets F ! j) \<subseteq> bits (sets F'' ! j) \<and>
         (TESTP (sets F ! j) PRIME \<or> TESTP (sets F ! j) COVERED \<longrightarrow>
            bits (sets F'' ! j) = bits (sets F ! j)) \<and>
         (TESTP (sets F ! j) PRIME \<longrightarrow>
            TESTP (sets F'' ! j) PRIME \<and>
            TESTP (sets F'' ! j) COVERED = TESTP (sets F ! j) COVERED) \<and>
         (TESTP (sets F ! j) COVERED \<longrightarrow> TESTP (sets F'' ! j) COVERED) \<and>
         (TESTP (sets F'' ! j) COVERED \<and> \<not> TESTP (sets F ! j) COVERED \<longrightarrow>
            (\<exists>m<length (sets F). TESTP (sets F'' ! m) PRIME \<and> \<not> TESTP (sets F'' ! m) COVERED \<and>
                bits (sets F'' ! j) \<subseteq> bits (sets F'' ! m)))"
    if j: "j < length (sets F)" for j
  proof (intro conjI impI)
    note a = r1[OF j] and b = r2[OF j]
    show "bits (sets F ! j) \<subseteq> bits (sets F'' ! j)" using a b by blast
    show "bits (sets F'' ! j) = bits (sets F ! j)" if "TESTP (sets F ! j) PRIME \<or> TESTP (sets F ! j) COVERED"
      using that a b by auto
    show "TESTP (sets F'' ! j) PRIME" if "TESTP (sets F ! j) PRIME" using that a b by auto
    show "TESTP (sets F'' ! j) COVERED = TESTP (sets F ! j) COVERED" if "TESTP (sets F ! j) PRIME"
      using that a b by auto
    show "TESTP (sets F'' ! j) COVERED" if "TESTP (sets F ! j) COVERED" using that a b by auto
    show "\<exists>m<length (sets F). TESTP (sets F'' ! m) PRIME \<and> \<not> TESTP (sets F'' ! m) COVERED \<and>
                bits (sets F'' ! j) \<subseteq> bits (sets F'' ! m)"
      if c: "TESTP (sets F'' ! j) COVERED \<and> \<not> TESTP (sets F ! j) COVERED"
    proof (cases "TESTP (sets F' ! j) COVERED")
      case True
      with a c obtain m where m: "m < length (sets F)" "TESTP (sets F' ! m) PRIME"
        "\<not> TESTP (sets F' ! m) COVERED" "bits (sets F' ! j) \<subseteq> bits (sets F' ! m)" by blast
      from r2[OF m(1)] m(2,3) have "TESTP (sets F'' ! m) PRIME" "\<not> TESTP (sets F'' ! m) COVERED"
        "bits (sets F'' ! m) = bits (sets F' ! m)" by auto
      moreover from b True have "bits (sets F'' ! j) = bits (sets F' ! j)" by auto
      ultimately show ?thesis using m(1,4) by auto
    next
      case False
      with b c show ?thesis by blast
    qed
  qed
  with len show ?thesis unfolding expand_rel_def by blast
qed

lemma expanded_rel:
  assumes "expanded i F F'" "i < length (sets F)" "\<not> TESTP (sets F ! i) PRIME" "\<not> TESTP (sets F ! i) COVERED"
  shows "expand_rel F F'"
proof -
  have len: "length (sets F') = length (sets F)" using assms(1) by (simp add: expanded_def)
  have e: "bits (sets F ! i) \<subseteq> bits (sets F' ! i)" "TESTP (sets F' ! i) PRIME" "\<not> TESTP (sets F' ! i) COVERED"
    using assms(1) by (simp_all add: expanded_def)
  have o: "\<And>j. j < length (sets F) \<Longrightarrow> j \<noteq> i \<Longrightarrow>
         bits (sets F' ! j) = bits (sets F ! j) \<and>
         TESTP (sets F' ! j) PRIME = TESTP (sets F ! j) PRIME \<and>
         (TESTP (sets F ! j) COVERED \<longrightarrow> TESTP (sets F' ! j) COVERED) \<and>
         (TESTP (sets F' ! j) COVERED \<and> \<not> TESTP (sets F ! j) COVERED \<longrightarrow>
            \<not> TESTP (sets F ! j) PRIME \<and> bits (sets F ! j) \<subseteq> bits (sets F' ! i))"
    using assms(1) unfolding expanded_def by blast
  have "bits (sets F ! j) \<subseteq> bits (sets F' ! j) \<and>
         (TESTP (sets F ! j) PRIME \<or> TESTP (sets F ! j) COVERED \<longrightarrow>
            bits (sets F' ! j) = bits (sets F ! j)) \<and>
         (TESTP (sets F ! j) PRIME \<longrightarrow>
            TESTP (sets F' ! j) PRIME \<and>
            TESTP (sets F' ! j) COVERED = TESTP (sets F ! j) COVERED) \<and>
         (TESTP (sets F ! j) COVERED \<longrightarrow> TESTP (sets F' ! j) COVERED) \<and>
         (TESTP (sets F' ! j) COVERED \<and> \<not> TESTP (sets F ! j) COVERED \<longrightarrow>
            (\<exists>m<length (sets F). TESTP (sets F' ! m) PRIME \<and> \<not> TESTP (sets F' ! m) COVERED \<and>
                bits (sets F' ! j) \<subseteq> bits (sets F' ! m)))"
    if j: "j < length (sets F)" for j
  proof (cases "j = i")
    case True
    with e assms(3,4) show ?thesis by simp
  next
    case False
    from o[OF j False] e assms(2) show ?thesis by auto
  qed
  with len show ?thesis unfolding expand_rel_def by blast
qed

lemma bits_image_eq: "map bits xs = map bits ys \<Longrightarrow> bits ` set xs = bits ` set ys"
  by (metis set_map)

lemma all_set_nth: "(\<forall>p\<in>set xs. P p) \<longleftrightarrow> (\<forall>j<length xs. P (xs ! j))"
  by (rule all_set_conv_all_nth)

lemma expand1_keeps_inside:
  assumes i: "i < length (sets F)" and sub: "\<forall>p\<in>set (sets F). bits p \<subseteq> fullset g"
    and ex: "expand1 ext g R F IL i = Inr (R1, F1)"
  shows "\<forall>p\<in>set (sets F1). bits p \<subseteq> fullset g"
    "\<forall>j<length (sets F). bits (sets F1 ! j) \<inter> IL = bits (sets F ! j) \<inter> IL"
    "\<forall>p\<in>set (sets F). in_every_var g (bits p) \<Longrightarrow> \<forall>p\<in>set (sets F1). in_every_var g (bits p)"
proof -
  note p = expand1_props[OF i sub ex]
  have len: "length (sets F1) = length (sets F)" using p(1) by (simp add: expanded_def)
  have o: "\<And>j. j < length (sets F) \<Longrightarrow> j \<noteq> i \<Longrightarrow> bits (sets F1 ! j) = bits (sets F ! j)"
    using p(1) unfolding expanded_def by blast
  have gi: "bits (sets F ! i) \<subseteq> bits (sets F1 ! i)" using p(1) by (simp add: expanded_def)
  show "\<forall>p\<in>set (sets F1). bits p \<subseteq> fullset g"
    unfolding all_set_nth len
  proof (intro allI impI)
    fix j assume j: "j < length (sets F)"
    show "bits (sets F1 ! j) \<subseteq> fullset g"
      using p(2) o[OF j] sub[unfolded all_set_nth, rule_format, OF j] by (cases "j = i") auto
  qed
  show "\<forall>j<length (sets F). bits (sets F1 ! j) \<inter> IL = bits (sets F ! j) \<inter> IL"
    using p(3) o by (metis)
  show "\<forall>p\<in>set (sets F1). in_every_var g (bits p)" if a: "\<forall>p\<in>set (sets F). in_every_var g (bits p)"
    unfolding all_set_nth len
  proof (intro allI impI)
    fix j assume j: "j < length (sets F)"
    show "in_every_var g (bits (sets F1 ! j))"
      using in_every_var_mono[OF a[unfolded all_set_nth, rule_format, OF j]] gi o[OF j]
      by (cases "j = i") auto
  qed
qed

lemma expand_cubes_props:
  "expand_cubes ext g IL ixs R F = Inr (R', F') \<Longrightarrow>
   \<forall>i\<in>set ixs. i < length (sets F) \<Longrightarrow> \<forall>p\<in>set (sets F). bits p \<subseteq> fullset g \<Longrightarrow>
   expand_rel F F' \<and> map bits (sets R') = map bits (sets R) \<and>
   (\<forall>i\<in>set ixs. TESTP (sets F' ! i) PRIME \<or> TESTP (sets F' ! i) COVERED) \<and>
   (\<forall>j<length (sets F). bits (sets F' ! j) \<inter> IL = bits (sets F ! j) \<inter> IL) \<and>
   (\<forall>p\<in>set (sets F'). bits p \<subseteq> fullset g)"
proof (induction ixs arbitrary: R F)
  case Nil
  then show ?case by (simp add: expand_rel_refl)
next
  case (Cons i rest)
  from Cons.prems(2) have i: "i < length (sets F)" and rest: "\<forall>k\<in>set rest. k < length (sets F)" by auto
  show ?case
  proof (cases "\<not> TESTP (sets F ! i) PRIME \<and> \<not> TESTP (sets F ! i) COVERED")
    case True
    with Cons.prems(1) obtain R1 F1 where ex: "expand1 ext g R F IL i = Inr (R1, F1)"
      and rec: "expand_cubes ext g IL rest R1 F1 = Inr (R', F')"
      by (auto split: sum.splits)
    note p = expand1_props[OF i Cons.prems(3) ex]
    note k = expand1_keeps_inside[OF i Cons.prems(3) ex]
    have len: "length (sets F1) = length (sets F)" using p(1) by (simp add: expanded_def)
    have rel1: "expand_rel F F1" using expanded_rel[OF p(1) i] True by simp
    from Cons.IH[OF rec _ k(1)] rest len
    have ih: "expand_rel F1 F'" "map bits (sets R') = map bits (sets R1)"
      "\<forall>i\<in>set rest. TESTP (sets F' ! i) PRIME \<or> TESTP (sets F' ! i) COVERED"
      "\<forall>j<length (sets F). bits (sets F' ! j) \<inter> IL = bits (sets F1 ! j) \<inter> IL"
      "\<forall>p\<in>set (sets F'). bits p \<subseteq> fullset g"
      by auto
    have "TESTP (sets F1 ! i) PRIME" using p(1) by (simp add: expanded_def)
    then have "TESTP (sets F' ! i) PRIME" using ih(1) i len unfolding expand_rel_def by auto
    with ih k(2) p(4) expand_rel_trans[OF rel1 ih(1)] show ?thesis by auto
  next
    case False
    with Cons.prems(1) have rec: "expand_cubes ext g IL rest R F = Inr (R', F')" by auto
    from Cons.IH[OF rec rest Cons.prems(3)]
    have ih: "expand_rel F F'" "map bits (sets R') = map bits (sets R)"
      "\<forall>i\<in>set rest. TESTP (sets F' ! i) PRIME \<or> TESTP (sets F' ! i) COVERED"
      "\<forall>j<length (sets F). bits (sets F' ! j) \<inter> IL = bits (sets F ! j) \<inter> IL"
      "\<forall>p\<in>set (sets F'). bits p \<subseteq> fullset g"
      by auto
    have "TESTP (sets F' ! i) PRIME \<or> TESTP (sets F' ! i) COVERED"
      using False ih(1) i unfolding expand_rel_def by auto
    with ih show ?thesis by auto
  qed
qed

lemma expand_cubes_orth:
  "expand_cubes ext g IL ixs R F = Inr (R', F') \<Longrightarrow>
   \<forall>i\<in>set ixs. i < length (sets F) \<Longrightarrow> \<forall>p\<in>set (sets F). bits p \<subseteq> fullset g \<Longrightarrow>
   binary_geometry g \<Longrightarrow> cover_ok ext g \<Longrightarrow> \<forall>p\<in>set (sets F). in_every_var g (bits p) \<Longrightarrow>
   \<forall>p\<in>set (sets F). TESTP p PRIME \<longrightarrow> (\<forall>r\<in>bits ` set (sets R). \<not> cdist0 g r (bits p)) \<Longrightarrow>
   \<forall>p\<in>set (sets F'). TESTP p PRIME \<longrightarrow> (\<forall>r\<in>bits ` set (sets R). \<not> cdist0 g r (bits p))"
proof (induction ixs arbitrary: R F)
  case Nil
  then show ?case by simp
next
  case (Cons i rest)
  from Cons.prems(2) have i: "i < length (sets F)" and rest: "\<forall>k\<in>set rest. k < length (sets F)" by auto
  show ?case
  proof (cases "\<not> TESTP (sets F ! i) PRIME \<and> \<not> TESTP (sets F ! i) COVERED")
    case True
    with Cons.prems(1) obtain R1 F1 where ex: "expand1 ext g R F IL i = Inr (R1, F1)"
      and rec: "expand_cubes ext g IL rest R1 F1 = Inr (R', F')"
      by (auto split: sum.splits)
    note p = expand1_props[OF i Cons.prems(3) ex]
    note k = expand1_keeps_inside[OF i Cons.prems(3) ex]
    have len: "length (sets F1) = length (sets F)" using p(1) by (simp add: expanded_def)
    have o: "\<And>j. j < length (sets F) \<Longrightarrow> j \<noteq> i \<Longrightarrow>
        bits (sets F1 ! j) = bits (sets F ! j) \<and> TESTP (sets F1 ! j) PRIME = TESTP (sets F ! j) PRIME"
      using p(1) unfolding expanded_def by blast
    have im: "bits ` set (sets R1) = bits ` set (sets R)" by (rule bits_image_eq[OF p(4)])
    have evi: "in_every_var g (bits (sets F ! i))" using Cons.prems(6) i by simp
    have oi: "\<forall>r\<in>bits ` set (sets R). \<not> cdist0 g r (bits (sets F1 ! i))"
      using p(5)[OF Cons.prems(4,5) evi] by auto
    have orth1: "\<forall>p\<in>set (sets F1). TESTP p PRIME \<longrightarrow> (\<forall>r\<in>bits ` set (sets R1). \<not> cdist0 g r (bits p))"
      unfolding all_set_nth len im
    proof (intro allI impI)
      fix j assume j: "j < length (sets F)" and pr: "TESTP (sets F1 ! j) PRIME"
      show "\<forall>r\<in>bits ` set (sets R). \<not> cdist0 g r (bits (sets F1 ! j))"
      proof (cases "j = i")
        case True
        with oi show ?thesis by simp
      next
        case False
        from o[OF j False] pr Cons.prems(7)[unfolded all_set_nth, rule_format, OF j]
        show ?thesis by simp
      qed
    qed
    from Cons.IH[OF rec _ k(1) Cons.prems(4,5) k(3)[OF Cons.prems(6)] orth1] rest len im
    show ?thesis by simp
  next
    case False
    with Cons.prems(1) have rec: "expand_cubes ext g IL rest R F = Inr (R', F')" by auto
    from Cons.IH[OF rec rest Cons.prems(3,4,5,6,7)] show ?thesis .
  qed
qed

lemma filter_active_marked:
  "filter (\<lambda>p. TESTP p ACTIVE) (map (\<lambda>p. if TESTP p COVERED then RESET p ACTIVE else SET p ACTIVE) xs)
     = map (\<lambda>p. SET p ACTIVE) (filter (\<lambda>p. \<not> TESTP p COVERED) xs)"
  by (induction xs) auto

lemma expand_unfold:
  assumes "expand ext g F R ns = Inr (F', R')"
  obtains F3 :: pcover where
    "expand_cubes ext g (if ns then var_mask g (output_var g) else {})
       [0 ..< length (sets (mini_sort ext F))] R
       ((mini_sort ext F)\<lparr>sets := map (\<lambda>p. RESET (RESET p COVERED) NONESSEN) (sets (mini_sort ext F))\<rparr>)
     = Inr (R', F3)"
    "sets F' = map (\<lambda>p. SET p ACTIVE) (filter (\<lambda>p. \<not> TESTP p COVERED) (sets F3))"
proof -
  let ?F2 = "(mini_sort ext F)\<lparr>sets := map (\<lambda>p. RESET (RESET p COVERED) NONESSEN) (sets (mini_sort ext F))\<rparr>"
  let ?IL = "(if ns then var_mask g (output_var g) else {})"
  from assms obtain R3 F3 where
    ec: "expand_cubes ext g ?IL [0 ..< length (sets (mini_sort ext F))] R ?F2 = Inr (R3, F3)"
    by (cases "expand_cubes ext g ?IL [0 ..< length (sets (mini_sort ext F))] R ?F2")
       (auto simp: expand_def Let_def split: if_splits)
  define F4 where "F4 = F3\<lparr>active_count := int (length (filter (\<lambda>p. \<not> TESTP p COVERED) (sets F3))),
                         sets := map (\<lambda>p. if TESTP p COVERED then RESET p ACTIVE else SET p ACTIVE)
                                   (sets F3)\<rparr>"
  from assms ec have r: "R' = R3"
    "F' = (if list_ex (\<lambda>p. TESTP p COVERED) (sets F3) then sf_inactive F4 else F4)"
    by (auto simp: expand_def Let_def F4_def split: if_splits)
  have "sets F' = map (\<lambda>p. SET p ACTIVE) (filter (\<lambda>p. \<not> TESTP p COVERED) (sets F3))"
  proof (cases "list_ex (\<lambda>p. TESTP p COVERED) (sets F3)")
    case True
    with r show ?thesis by (simp add: sf_inactive_def F4_def filter_active_marked)
  next
    case False
    then have "filter (\<lambda>p. \<not> TESTP p COVERED) (sets F3) = sets F3" by (simp add: list_ex_iff)
    moreover have "map (\<lambda>p. if TESTP p COVERED then RESET p ACTIVE else SET p ACTIVE) (sets F3)
        = map (\<lambda>p. SET p ACTIVE) (sets F3)" using False by (simp add: list_ex_iff)
    ultimately show ?thesis using r False by (simp add: F4_def)
  qed
  with that ec r show ?thesis by simp
qed

lemma expand_result:
  assumes ex: "expand ext g F R ns = Inr (F', R')"
    and sub: "\<forall>p\<in>set (sets (mini_sort ext F)). bits p \<subseteq> fullset g"
  shows "\<exists>F3::pcover. expand_post g (mini_sort ext F) ns F3 \<and>
           sets F' = map (\<lambda>p. SET p ACTIVE) (filter (\<lambda>p. \<not> TESTP p COVERED) (sets F3)) \<and>
           map bits (sets R') = map bits (sets R)"
proof -
  let ?S = "mini_sort ext F"
  let ?F2 = "?S\<lparr>sets := map (\<lambda>p. RESET (RESET p COVERED) NONESSEN) (sets ?S)\<rparr>"
  let ?IL = "(if ns then var_mask g (output_var g) else {})"
  from expand_unfold[OF ex] obtain F3 :: pcover where
    ec: "expand_cubes ext g ?IL [0 ..< length (sets ?S)] R ?F2 = Inr (R', F3)"
    and f: "sets F' = map (\<lambda>p. SET p ACTIVE) (filter (\<lambda>p. \<not> TESTP p COVERED) (sets F3))"
    by blast
  have l2: "length (sets ?F2) = length (sets ?S)" by simp
  have n2: "\<And>j. j < length (sets ?S) \<Longrightarrow> bits (sets ?F2 ! j) = bits (sets ?S ! j) \<and>
      TESTP (sets ?F2 ! j) PRIME = TESTP (sets ?S ! j) PRIME \<and> \<not> TESTP (sets ?F2 ! j) COVERED"
    by simp
  have sub2: "\<forall>p\<in>set (sets ?F2). bits p \<subseteq> fullset g" using sub by auto
  have ix: "\<forall>i\<in>set [0 ..< length (sets ?S)]. i < length (sets ?F2)" by simp
  from expand_cubes_props[OF ec ix sub2]
  have p: "expand_rel ?F2 F3" "map bits (sets R') = map bits (sets R)"
    "\<forall>i\<in>set [0 ..< length (sets ?S)]. TESTP (sets F3 ! i) PRIME \<or> TESTP (sets F3 ! i) COVERED"
    "\<forall>j<length (sets ?F2). bits (sets F3 ! j) \<inter> ?IL = bits (sets ?F2 ! j) \<inter> ?IL"
    by auto
  have l3: "length (sets F3) = length (sets ?S)" using p(1) by (simp add: expand_rel_def)
  note r = p(1)[unfolded expand_rel_def, THEN conjunct2, rule_format, unfolded l2]
  have "(TESTP (sets F3 ! j) PRIME \<or> TESTP (sets F3 ! j) COVERED) \<and>
         bits (sets ?S ! j) \<subseteq> bits (sets F3 ! j) \<and>
         (TESTP (sets F3 ! j) COVERED \<longrightarrow>
            (\<exists>m<length (sets F3). TESTP (sets F3 ! m) PRIME \<and> \<not> TESTP (sets F3 ! m) COVERED \<and>
                bits (sets F3 ! j) \<subseteq> bits (sets F3 ! m))) \<and>
         (TESTP (sets ?S ! j) PRIME \<longrightarrow> bits (sets F3 ! j) = bits (sets ?S ! j)) \<and>
         (ns \<longrightarrow> bits (sets F3 ! j) \<inter> var_mask g (output_var g)
                  = bits (sets ?S ! j) \<inter> var_mask g (output_var g))"
    if j: "j < length (sets F3)" for j
  proof -
    from j l3 have js: "j < length (sets ?S)" by simp
    note a = r[OF js] and b = n2[OF js]
    have c1: "TESTP (sets F3 ! j) PRIME \<or> TESTP (sets F3 ! j) COVERED" using p(3) js by simp
    have c2: "bits (sets ?S ! j) \<subseteq> bits (sets F3 ! j)" using a b by simp
    have c3: "TESTP (sets F3 ! j) COVERED \<longrightarrow>
            (\<exists>m<length (sets F3). TESTP (sets F3 ! m) PRIME \<and> \<not> TESTP (sets F3 ! m) COVERED \<and>
                bits (sets F3 ! j) \<subseteq> bits (sets F3 ! m))"
      using a b l3 by simp
    have c4: "TESTP (sets ?S ! j) PRIME \<longrightarrow> bits (sets F3 ! j) = bits (sets ?S ! j)"
      using a b by simp
    have c5: "ns \<longrightarrow> bits (sets F3 ! j) \<inter> var_mask g (output_var g)
                  = bits (sets ?S ! j) \<inter> var_mask g (output_var g)"
      using p(4)[rule_format, of j] js b by (cases ns) simp_all
    from c1 c2 c3 c4 c5 show ?thesis by blast
  qed
  with l3 have "expand_post g ?S ns F3" unfolding expand_post_def by blast
  with f p(2) show ?thesis by blast
qed

section \<open>Parts lowered before the minimum cover step\<close>

text \<open>
  The parts that have left both \<open>RAISE\<close> and \<open>FREESET\<close>, apart from those of
  \<open>INIT_LOWER\<close>, are blocked: raising one of them would make \<open>RAISE\<close> intersect a
  cube of \<open>BB\<close>.
\<close>

definition lowered_blocked :: "cube_struct \<Rightarrow> pcover \<Rightarrow> nat set \<Rightarrow> nat set \<Rightarrow> nat set \<Rightarrow> bool" where
  "lowered_blocked g BB INIT_LOWER RAISE FREESET =
     (\<forall>q\<in>fullset g - (RAISE \<union> FREESET) - INIT_LOWER.
        \<exists>r\<in>set (sets BB). cdist0 g (bits r) (insert q RAISE))"

text \<open>
  The part of \<open>expand1\<close> before \<open>while (BB->active_count > 0) mincov(...)\<close>: the
  state \<open>BB\<close>, \<open>CC\<close>, \<open>RAISE\<close>, \<open>FREESET\<close> when the covering loop is left.
\<close>

definition before_mincov ::
  "cube_struct \<Rightarrow> pcover \<Rightarrow> pcover \<Rightarrow> nat set \<Rightarrow> nat
     \<Rightarrow> error + (pcover \<times> pcover \<times> nat set \<times> nat set)" where
  "before_mincov g BB CC INIT_LOWER i =
     (case expand1_start g BB CC INIT_LOWER i of
        Inl e \<Rightarrow> Inl e
      | Inr (BB1, CC1, RAISE1, FREESET1) \<Rightarrow>
          (case (if active_count CC1 > 0
                 then select_feasible g BB1 CC1 RAISE1 FREESET1 (bits (sets CC ! i)) 0
                 else Inr (BB1, CC1, RAISE1, FREESET1, bits (sets CC ! i), 0)) of
             Inl e \<Rightarrow> Inl e
           | Inr (BB2, CC2, RAISE2, FREESET2, SUPER2, num_covered) \<Rightarrow>
               cover_loop g BB2 CC2 RAISE2 FREESET2))"

lemma lowered_blocked_step:
  assumes "lowered_blocked g BB IL R F" "R \<subseteq> R'" "R \<union> F \<subseteq> R' \<union> F'"
    "map bits (sets BB') = map bits (sets BB)"
  shows "lowered_blocked g BB' IL R' F'"
  unfolding lowered_blocked_def
proof
  fix q assume q: "q \<in> fullset g - (R' \<union> F') - IL"
  with assms(3) have "q \<in> fullset g - (R \<union> F) - IL" by auto
  with assms(1) obtain r where r: "r \<in> set (sets BB)" "cdist0 g (bits r) (insert q R)"
    unfolding lowered_blocked_def by blast
  from bits_image_eq[OF assms(4)] r(1) obtain r' where r': "r' \<in> set (sets BB')" "bits r' = bits r"
    by (metis imageE imageI)
  from cdist0_mono[OF r(2), of "insert q R'"] assms(2) have "cdist0 g (bits r) (insert q R')" by auto
  with r' show "\<exists>r\<in>set (sets BB'). cdist0 g (bits r) (insert q R')"
    by (intro bexI[of _ r']) simp_all
qed

lemma essen_parts_lowers_blocked:
  assumes ep: "essen_parts g BB CC R F = Inr (BB', CC', F')" and q: "q \<in> F" "q \<notin> F'"
  shows "\<exists>p\<in>set (sets BB). TESTP p ACTIVE \<and> cdist0 g (bits p) (insert q R)"
proof -
  define near where "near = filter (\<lambda>p. TESTP p ACTIVE \<and> cdist01 g (bits p) R \<le> 1) (sets BB)"
  define xlower where "xlower = foldl (\<lambda>x p. force_lower g x (bits p) R) {} near"
  note u = essen_parts_unfold[OF ep, folded near_def, folded xlower_def]
  from u(2) q have "q \<in> xlower" by auto
  then obtain p v where p: "p \<in> set near" "v \<in> set (separating g (bits p) R)" "q \<in> bits p \<inter> var_mask g v"
    unfolding xlower_def force_lower_fold_eq by auto
  from p(1) have pa: "p \<in> set (sets BB)" "TESTP p ACTIVE" and le: "cdist01 g (bits p) R \<le> 1"
    by (auto simp: near_def)
  from u(1) pa have "\<not> cdist0 g (bits p) R" by blast
  with le[unfolded cdist01_le1_cases] obtain w where w: "separating g (bits p) R = [w]" by blast
  with p(2) have vw: "separating g (bits p) R = [v]" by simp
  have "bits p \<inter> insert q R \<inter> var_mask g v' \<noteq> {}" if v': "v' < num_vars g" for v'
  proof (cases "v' = v")
    case True
    with p(3) show ?thesis by auto
  next
    case False
    with vw have "v' \<notin> set (separating g (bits p) R)" by simp
    with v' have "bits p \<inter> R \<inter> var_mask g v' \<noteq> {}" by (simp add: separating_iff)
    then show ?thesis by auto
  qed
  then have "cdist0 g (bits p) (insert q R)" unfolding cdist0_iff by blast
  with pa show ?thesis by blast
qed

lemma essen_parts_blocked:
  assumes ep: "essen_parts g BB CC R F = Inr (BB', CC', F')" and lb: "lowered_blocked g BB IL R F"
  shows "lowered_blocked g BB' IL R F'"
proof -
  have "lowered_blocked g BB IL R F'"
    unfolding lowered_blocked_def
  proof
    fix q assume q: "q \<in> fullset g - (R \<union> F') - IL"
    show "\<exists>r\<in>set (sets BB). cdist0 g (bits r) (insert q R)"
    proof (cases "q \<in> F")
      case True
      with q essen_parts_lowers_blocked[OF ep, of q] show ?thesis by blast
    next
      case False
      with q lb show ?thesis unfolding lowered_blocked_def by blast
    qed
  qed
  from lowered_blocked_step[OF this subset_refl subset_refl essen_parts_bits[OF ep]] show ?thesis .
qed

lemma select_feasible_pass_blocked:
  assumes lb: "lowered_blocked g BB IL RAISE FREESET"
  shows "select_feasible_pass g BB CC RAISE FREESET SUPER_CUBE num_covered feas bestfeas
             = Inr (Return (BB1, CC1, RAISE1, FREESET1, SUPER1, num1)) \<Longrightarrow>
         lowered_blocked g BB1 IL RAISE1 FREESET1"
    and "select_feasible_pass g BB CC RAISE FREESET SUPER_CUBE num_covered feas bestfeas
             = Inr (Goto_loop (BB1, CC1, RAISE1, FREESET1, SUPER1, num1, feas1, bestfeas1)) \<Longrightarrow>
         lowered_blocked g BB1 IL RAISE1 FREESET1"
proof -
  {
    assume a: "select_feasible_pass g BB CC RAISE FREESET SUPER_CUBE num_covered feas bestfeas
             = Inr (Return (BB1, CC1, RAISE1, FREESET1, SUPER1, num1))"
    note r = select_feasible_pass_return[OF a]
    note er = essen_raising_props[OF r(2)]
    have "RAISE \<union> FREESET \<subseteq> RAISE1 \<union> FREESET1" using er(2) by simp
    from lowered_blocked_step[OF lb er(1) this] r(1)
    show "lowered_blocked g BB1 IL RAISE1 FREESET1" by simp
  }
  {
    assume a: "select_feasible_pass g BB CC RAISE FREESET SUPER_CUBE num_covered feas bestfeas
             = Inr (Goto_loop (BB1, CC1, RAISE1, FREESET1, SUPER1, num1, feas1, bestfeas1))"
    from select_feasible_pass_goto[OF a] obtain R1 F1 CCa b where
      g: "essen_raising BB RAISE FREESET = (R1, F1)"
      "RAISE1 = R1 \<union> bits (sets CCa ! b)"
      "essen_parts g BB (Some CCa) RAISE1 (F1 - RAISE1) = Inr (BB1, Some CC1, FREESET1)"
      by (metis (no_types))
    note er = essen_raising_props[OF g(1)]
    have s1: "RAISE \<subseteq> RAISE1" using er(1) g(2) by auto
    have s2: "RAISE \<union> FREESET \<subseteq> RAISE1 \<union> (F1 - RAISE1)" using er(2) g(2) by auto
    from essen_parts_blocked[OF g(3) lowered_blocked_step[OF lb s1 s2 refl]]
    show "lowered_blocked g BB1 IL RAISE1 FREESET1" .
  }
qed

lemma select_feasible_loop_blocked:
  "lowered_blocked g BB IL RAISE FREESET \<Longrightarrow>
   select_feasible_loop g BB CC RAISE FREESET SUPER_CUBE num_covered feas bestfeas
     = Inr (BB', CC', RAISE', FREESET', SUPER', num') \<Longrightarrow>
   lowered_blocked g BB' IL RAISE' FREESET'"
proof (induction g BB CC RAISE FREESET SUPER_CUBE num_covered feas bestfeas
        rule: select_feasible_loop.induct)
  case (1 g BB CC RAISE FREESET SUPER_CUBE num_covered feas bestfeas)
  show ?case
  proof (cases "select_feasible_pass g BB CC RAISE FREESET SUPER_CUBE num_covered feas bestfeas")
    case (Inl e)
    with "1.prems"(2) show ?thesis by (simp add: select_feasible_loop.simps[of g BB CC])
  next
    case (Inr x)
    show ?thesis
    proof (cases x)
      case (Return r)
      with Inr "1.prems"(2) have
        "select_feasible_pass g BB CC RAISE FREESET SUPER_CUBE num_covered feas bestfeas
           = Inr (Return (BB', CC', RAISE', FREESET', SUPER', num'))"
        by (simp add: select_feasible_loop.simps[of g BB CC])
      from select_feasible_pass_blocked(1)[OF "1.prems"(1) this] show ?thesis .
    next
      case (Goto_loop s)
      obtain BB1 CC1 R1 F1 S1 n1 feas1 bf1 where s: "s = (BB1, CC1, R1, F1, S1, n1, feas1, bf1)"
        by (cases s) auto
      note p = Inr[unfolded Goto_loop s]
      note i1 = select_feasible_pass_blocked(2)[OF "1.prems"(1) p]
      from p "1.prems"(2) have
        "select_feasible_loop g BB1 CC1 R1 F1 S1 n1 feas1 bf1 = Inr (BB', CC', RAISE', FREESET', SUPER', num')"
        by (simp add: select_feasible_loop.simps[of g BB CC])
      from "1.IH"[OF Inr Goto_loop, unfolded s, OF refl refl refl refl refl refl refl i1 this]
      show ?thesis .
    qed
  qed
qed

lemma cover_loop_blocked:
  "lowered_blocked g BB IL RAISE FREESET \<Longrightarrow>
   cover_loop g BB CC RAISE FREESET = Inr (BB', CC', RAISE', FREESET') \<Longrightarrow>
   lowered_blocked g BB' IL RAISE' FREESET'"
proof (induction g BB CC RAISE FREESET rule: cover_loop.induct)
  case (1 g BB CC RAISE FREESET)
  show ?case
  proof (cases "active_count CC > 0")
    case False
    with "1.prems" show ?thesis
      by (simp add: cover_loop.simps[of g BB CC])
  next
    case True
    let ?b = "most_frequent g (Some CC) FREESET"
    from True "1.prems"(2) have nn: "\<not> ?b < 0"
      by (auto simp: cover_loop.simps[of g BB CC] Let_def split: if_splits)
    let ?R1 = "insert (nat ?b) RAISE" and ?F1 = "FREESET - {nat ?b}"
    from True nn "1.prems"(2) obtain BB2 CC2 F2 where
      ep: "essen_parts g BB (Some CC) ?R1 ?F1 = Inr (BB2, Some CC2, F2)"
      and rec: "cover_loop g BB2 CC2 ?R1 F2 = Inr (BB', CC', RAISE', FREESET')"
      by (auto simp: cover_loop.simps[of g BB CC] Let_def split: sum.splits option.splits)
    have s: "RAISE \<subseteq> ?R1" "RAISE \<union> FREESET \<subseteq> ?R1 \<union> ?F1" by auto
    note lb2 = essen_parts_blocked[OF ep lowered_blocked_step[OF "1.prems"(1) s refl]]
    from "1.IH"[OF True refl nn refl refl ep refl refl refl lb2 rec] show ?thesis .
  qed
qed

lemma expand1_start_blocked:
  assumes st: "expand1_start g BB CC IL i = Inr (BB1, CC1, R1, F1)"
  shows "lowered_blocked g BB1 IL R1 F1"
proof -
  define CC0 where "CC0 = CC\<lparr>sets := (sets CC)[i := SET (sets CC ! i) PRIME]\<rparr>"
  define BBa where "BBa = BB\<lparr>active_count := int (length (sets BB)),
                  sets := map (\<lambda>p. SET p ACTIVE) (sets BB)\<rparr>"
  define CCa where "CCa = CC0\<lparr>active_count := int (length (sets CC0))
                       - int (length (filter (\<lambda>p. TESTP p COVERED \<or> TESTP p PRIME) (sets CC0))),
                  sets := map (\<lambda>p. if TESTP p COVERED \<or> TESTP p PRIME
                                    then RESET p ACTIVE else SET p ACTIVE) (sets CC0)\<rparr>"
  define R where "R = bits (sets CCa ! i)"
  define F where "F = fullset g - R"
  obtain Fb BBb CCb where br: "(if \<not> setp_empty IL
              then (let FREESET1 = F - IL;
                        (BB2, CC2) = elim_lowering g BBa (Some CCa) R FREESET1
                    in (FREESET1, BB2, CC2))
              else (F, BBa, Some CCa)) = (Fb, BBb, CCb)"
    by (metis prod_cases3)
  have ep0: "(case essen_parts g BBb CCb R Fb of
           Inl e \<Rightarrow> Inl e
         | Inr (BB3, None, FREESET3) \<Rightarrow> Inl Null_cover
         | Inr (BB3, Some CC3, FREESET3) \<Rightarrow> Inr (BB3, CC3, R, FREESET3)) = Inr (BB1, CC1, R1, F1)"
    using st br unfolding expand1_start_def Let_def CC0_def[symmetric] BBa_def[symmetric]
      CCa_def[symmetric] R_def[symmetric] F_def[symmetric]
    by simp
  then have ep: "essen_parts g BBb CCb R Fb = Inr (BB1, Some CC1, F1)" and R1: "R1 = R"
    by (auto split: sum.splits option.splits)
  have "fullset g - (R \<union> Fb) - IL = {}"
    using br by (auto simp: F_def Let_def split: if_splits prod.splits)
  then have "lowered_blocked g BBb IL R Fb" unfolding lowered_blocked_def by blast
  from essen_parts_blocked[OF ep this] R1 show ?thesis by simp
qed

lemma before_mincov_blocked:
  assumes "before_mincov g BB CC IL i = Inr (BB3, CC3, R3, F3)"
  shows "lowered_blocked g BB3 IL R3 F3"
proof -
  from assms obtain BB1 CC1 R1 F1 where st: "expand1_start g BB CC IL i = Inr (BB1, CC1, R1, F1)"
    by (auto simp: before_mincov_def split: sum.splits)
  let ?sf = "(if active_count CC1 > 0 then select_feasible g BB1 CC1 R1 F1 (bits (sets CC ! i)) 0
      else Inr (BB1, CC1, R1, F1, bits (sets CC ! i), 0))"
  from assms st obtain BB2 CC2 R2 F2 S2 n2 where sf: "?sf = Inr (BB2, CC2, R2, F2, S2, n2)"
    by (cases ?sf) (auto simp: before_mincov_def split: sum.splits)
  from assms st sf have cl: "cover_loop g BB2 CC2 R2 F2 = Inr (BB3, CC3, R3, F3)"
    by (simp add: before_mincov_def)
  note l1 = expand1_start_blocked[OF st]
  have l2: "lowered_blocked g BB2 IL R2 F2"
  proof (cases "active_count CC1 > 0")
    case True
    with sf have "select_feasible_loop g BB1 CC1 R1 F1 (bits (sets CC ! i)) 0
       (filter (\<lambda>i. TESTP (sets CC1 ! i) ACTIVE) [0 ..< length (sets CC1)]) None
        = Inr (BB2, CC2, R2, F2, S2, n2)"
      by (simp add: select_feasible_def)
    from select_feasible_loop_blocked[OF l1 this] show ?thesis .
  next
    case False
    with sf l1 show ?thesis by simp
  qed
  from cover_loop_blocked[OF l2 cl] show ?thesis .
qed

lemma expand1_before_mincov:
  assumes "expand1 ext g BB CC IL i = Inr (BB', CC')"
  obtains BB3 CC3 R3 F3 BB4 R4 F4 c2 where
    "before_mincov g BB CC IL i = Inr (BB3, CC3, R3, F3)"
    "mincov_loop ext g BB3 R3 F3 = Inr (BB4, R4, F4)"
    "CC' = CC3\<lparr>sets := (sets CC3)[i := c2]\<rparr>" "bits c2 = R4 \<union> F4"
proof -
  from expand1_unfold[OF assms] obtain BB1 CC1 R1 F1 BB2 CC2 R2 F2 S2 n2 BB3 CC3 R3 F3 BB4 R4 F4 c2 where
    u: "expand1_start g BB CC IL i = Inr (BB1, CC1, R1, F1)"
    "(if active_count CC1 > 0 then select_feasible g BB1 CC1 R1 F1 (bits (sets CC ! i)) 0
      else Inr (BB1, CC1, R1, F1, bits (sets CC ! i), 0)) = Inr (BB2, CC2, R2, F2, S2, n2)"
    "cover_loop g BB2 CC2 R2 F2 = Inr (BB3, CC3, R3, F3)"
    "mincov_loop ext g BB3 R3 F3 = Inr (BB4, R4, F4)"
    "BB' = BB4" "CC' = CC3\<lparr>sets := (sets CC3)[i := c2]\<rparr>"
    "bits c2 = R4 \<union> F4"
    by metis
  have "before_mincov g BB CC IL i = Inr (BB3, CC3, R3, F3)"
    using u(1,2,3) by (simp add: before_mincov_def)
  from that[OF this u(4,6,7)] show ?thesis .
qed

section \<open>Properties of \<open>expand\<close>\<close>

lemma cdist0_sym: "cdist0 g a b = cdist0 g b a"
  by (simp add: cdist0_iff Int_commute)

lemma valid_cube_every_var: "valid_cube g c \<Longrightarrow> in_every_var g c \<and> c \<subseteq> fullset g"
  by (auto simp: valid_cube_def in_every_var_def list_all_iff)

lemma expand_prime_flags:
  assumes "expand ext g F R ns = Inr (F', R')"
    and "\<forall>p\<in>set (sets (mini_sort ext F)). bits p \<subseteq> fullset g"
  shows "\<forall>c\<in>set (sets F'). TESTP c PRIME \<and> TESTP c ACTIVE \<and> \<not> TESTP c COVERED"
proof -
  from expand_result[OF assms] obtain F3 :: pcover where
    t: "expand_post g (mini_sort ext F) ns F3"
    and r: "sets F' = map (\<lambda>p. SET p ACTIVE) (filter (\<lambda>p. \<not> TESTP p COVERED) (sets F3))"
    by blast
  from t have "\<forall>j<length (sets F3). TESTP (sets F3 ! j) PRIME \<or> TESTP (sets F3 ! j) COVERED"
    unfolding expand_post_def by blast
  then have "\<forall>p\<in>set (sets F3). TESTP p PRIME \<or> TESTP p COVERED"
    by (simp add: all_set_conv_all_nth)
  with r show ?thesis by auto
qed

lemma expand_cubes_all_prime:
  "\<forall>i\<in>set ixs. TESTP (sets F ! i) PRIME \<Longrightarrow> expand_cubes ext g IL ixs R F = Inr (R, F)"
  by (induction ixs) auto

text \<open>
  A point of the space chooses one part in every variable; a cover covers it when one
  of its cubes has all the chosen parts.
\<close>

definition covers :: "pcover \<Rightarrow> nat list \<Rightarrow> bool" where
  "covers F x = list_ex (\<lambda>c. set x \<subseteq> bits c) (sets F)"

definition is_point :: "cube_struct \<Rightarrow> nat list \<Rightarrow> bool" where
  "is_point g x = (length x = num_vars g \<and> list_all (\<lambda>v. x ! v \<in> var_mask g v) [0 ..< num_vars g])"

subsection \<open>Concrete runs over the small geometry\<close>

text \<open>
  The covers that \<open>expand\<close> and \<open>expand1\<close> return for \<open>F_c3\<close> and \<open>R_c3\<close>.
\<close>

definition F_c3_expanded :: pcover where
  "F_c3_expanded =
     \<lparr>sets = [\<lparr>bits = {0, 1, 3, 4, 5}, flags = {PRIME, ACTIVE, NONESSEN}\<rparr>,
              \<lparr>bits = {0, 1, 2, 3, 5}, flags = {PRIME, ACTIVE}\<rparr>], active_count = 2\<rparr>"

definition R_c3_after :: pcover where
  "R_c3_after = \<lparr>sets = [\<lparr>bits = {0, 2, 4}, flags = {}\<rparr>], active_count = 0\<rparr>"

definition F_c3_first :: pcover where
  "F_c3_first =
     \<lparr>sets = [\<lparr>bits = {0, 1, 3, 4, 5}, flags = {NONESSEN, PRIME}\<rparr>,
              \<lparr>bits = {0, 2, 5}, flags = {}\<rparr>], active_count = 0\<rparr>"

definition F_c3_nonsparse :: pcover where
  "F_c3_nonsparse =
     \<lparr>sets = [\<lparr>bits = {1, 3, 4}, flags = {PRIME, ACTIVE, NONESSEN}\<rparr>,
              \<lparr>bits = {0, 1, 2, 3, 5}, flags = {PRIME, ACTIVE}\<rparr>], active_count = 2\<rparr>"

lemma wf_g_ex: "wf_cube g_ex"
  by code_simp

lemma binary_g_ex: "binary_inputs g_ex"
  by code_simp

lemma cover_ok_ex: "cover_ok ext_ex g"
  unfolding cover_ok_def by (auto simp: ext_ex_def)

lemma sort_ok_ex: "sort_ok ext_ex"
  by (simp add: sort_ok_def ext_ex_def)

lemma F_c3_valid: "\<forall>p\<in>set (sets F_c3). valid_cube g_ex (bits p)"
  by code_simp

lemma F_c3_inside: "\<forall>p\<in>set (sets F_c3). bits p \<subseteq> fullset g_ex"
  by code_simp

lemma F_c3_orth: "\<forall>p\<in>set (sets F_c3). \<forall>r\<in>set (sets R_c3). \<not> cdist0 g_ex (bits p) (bits r)"
  by code_simp

lemma expand_c3: "expand ext_ex g_ex F_c3 R_c3 False = Inr (F_c3_expanded, R_c3_after)"
  by code_simp

lemma i0_c3: "0 < length (sets F_c3)"
  by code_simp

lemma expand1_c3: "expand1 ext_ex g_ex R_c3 F_c3 {} 0 = Inr (R_c3_after, F_c3_first)"
  by code_simp

lemma expand_c3_ns: "expand ext_ex g_ex F_c3 R_c3 True = Inr (F_c3_nonsparse, R_c3_after)"
  by code_simp

lemma bits_c3: "bits (sets F_c3 ! 0) = {1, 3, 4}" "bits (sets F_c3_first ! 0) = {0, 1, 3, 4, 5}"
  by code_simp+

lemma before_mincov_c3:
  "before_mincov g_ex R_c3 F_c3 {} 0 =
     Inr (\<lparr>sets = [\<lparr>bits = {0, 2, 4}, flags = {}\<rparr>], active_count = 0\<rparr>,
          \<lparr>sets = [\<lparr>bits = {1, 3, 4}, flags = {PRIME}\<rparr>, \<lparr>bits = {0, 2, 5}, flags = {}\<rparr>],
           active_count = 0\<rparr>,
          {0, 1, 3, 4, 5}, {})"
  by code_simp

lemma sorted_c3_inside: "\<forall>p\<in>set (sets (mini_sort ext_ex F_c3)). bits p \<subseteq> fullset g_ex"
  by code_simp

section \<open>Orthogonality\<close>

text \<open>
  Claim C1, as amended. Let the geometry be well formed with every variable but the
  output variable binary, the cubes of \<open>F\<close> have a part in every variable, no cube of
  \<open>F\<close> intersect a cube of \<open>R\<close>, \<open>mini_sort\<close> return the cubes of its argument and
  \<open>do_sm_minimum_cover\<close> return a cover of its rows. Then for either value of
  \<open>nonsparse\<close> no cube of the cover returned by \<open>expand(F, R, nonsparse)\<close> intersects
  a cube of \<open>R\<close>.
\<close>

theorem expand_orthogonal:
  assumes "wf_cube g" "binary_inputs g" "cover_ok ext g" "sort_ok ext"
    and "\<forall>p\<in>set (sets F). valid_cube g (bits p)"
    and "\<forall>p\<in>set (sets F). \<forall>r\<in>set (sets R). \<not> cdist0 g (bits p) (bits r)"
    and "expand ext g F R nonsparse = Inr (F', R')"
  shows "\<forall>c\<in>set (sets F'). \<forall>r\<in>set (sets R). \<not> cdist0 g (bits c) (bits r)"
proof -
  have bg: "binary_geometry g" using assms(1,2) by (simp add: binary_geometry_def)
  let ?S = "mini_sort ext F"
  let ?F2 = "?S\<lparr>sets := map (\<lambda>p. RESET (RESET p COVERED) NONESSEN) (sets ?S)\<rparr>"
  let ?IL = "(if nonsparse then var_mask g (output_var g) else {})"
  have S: "set (sets ?S) = set (sets F)" using assms(4) by (simp add: sort_ok_def)
  from expand_unfold[OF assms(7)] obtain F3 :: pcover where
    ec: "expand_cubes ext g ?IL [0 ..< length (sets ?S)] R ?F2 = Inr (R', F3)"
    and f: "sets F' = map (\<lambda>p. SET p ACTIVE) (filter (\<lambda>p. \<not> TESTP p COVERED) (sets F3))"
    by blast
  have sub2: "\<forall>p\<in>set (sets ?F2). bits p \<subseteq> fullset g"
    using assms(5) S valid_cube_every_var by auto
  have ev2: "\<forall>p\<in>set (sets ?F2). in_every_var g (bits p)"
    using assms(5) S valid_cube_every_var by auto
  have o2: "\<forall>p\<in>set (sets ?F2). TESTP p PRIME \<longrightarrow> (\<forall>r\<in>bits ` set (sets R). \<not> cdist0 g r (bits p))"
  proof (intro ballI impI)
    fix p r assume p: "p \<in> set (sets ?F2)" and r: "r \<in> bits ` set (sets R)"
    from p S obtain p0 where p0: "p0 \<in> set (sets F)" "bits p = bits p0" by auto
    from r obtain r0 where r0: "r0 \<in> set (sets R)" "r = bits r0" by auto
    from assms(6) p0(1) r0(1) have "\<not> cdist0 g (bits p0) (bits r0)" by blast
    then show "\<not> cdist0 g r (bits p)" using p0(2) r0(2) cdist0_sym[of g r "bits p"] by simp
  qed
  have ix: "\<forall>i\<in>set [0 ..< length (sets ?S)]. i < length (sets ?F2)" by simp
  from expand_cubes_orth[OF ec ix sub2 bg assms(3) ev2 o2]
  have o3: "\<forall>p\<in>set (sets F3). TESTP p PRIME \<longrightarrow> (\<forall>r\<in>bits ` set (sets R). \<not> cdist0 g r (bits p))" .
  from expand_cubes_props[OF ec ix sub2]
  have "\<forall>i\<in>set [0 ..< length (sets ?S)]. TESTP (sets F3 ! i) PRIME \<or> TESTP (sets F3 ! i) COVERED"
    and "expand_rel ?F2 F3" by auto
  then have "\<forall>p\<in>set (sets F3). TESTP p PRIME \<or> TESTP p COVERED"
    by (simp add: all_set_conv_all_nth expand_rel_def)
  with o3 have o4: "\<forall>p\<in>set (sets F3). \<not> TESTP p COVERED \<longrightarrow>
      (\<forall>r\<in>set (sets R). \<not> cdist0 g (bits r) (bits p))" by blast
  show ?thesis
  proof (intro ballI)
    fix c r assume c: "c \<in> set (sets F')" and r: "r \<in> set (sets R)"
    from c f obtain p where p: "p \<in> set (sets F3)" "\<not> TESTP p COVERED" "bits c = bits p" by auto
    with o4 r have "\<not> cdist0 g (bits r) (bits p)" by blast
    then show "\<not> cdist0 g (bits c) (bits r)" using p(3) cdist0_sym[of g "bits c" "bits r"] by simp
  qed
qed

text \<open>
  Without the binary inputs the claim fails. Two input variables of three parts
  (parts 0 to 2 and 3 to 5) and an output variable with the parts 6 and 7; the solver
  picks the smallest input part of every row (all of a row that has no input part),
  which hits every row and is a minimum cover of the single row met here.
\<close>

definition g_mv :: cube_struct where
  "g_mv = \<lparr>cube_size = 8, first_part = [0, 3, 6], last_part = [2, 5, 7], output_var = 2\<rparr>"

definition smallest_input :: "nat set \<Rightarrow> nat set" where
  "smallest_input row =
     (case find (\<lambda>x. x \<in> row - var_mask g_mv (output_var g_mv)) [0 ..< cube_size g_mv] of
        Some x \<Rightarrow> {x}
      | None \<Rightarrow> row)"

definition ext_mv :: extern where
  "ext_mv = \<lparr>mini_sort = (\<lambda>F. F), unravel_output = (\<lambda>B. B),
             do_sm_minimum_cover = (\<lambda>B. \<Union> (set (map smallest_input B))),
             mark_irredundant = (\<lambda>F D. F\<lparr>sets := map (\<lambda>p. SET p ACTIVE) (sets F)\<rparr>),
             cover_cost = (\<lambda>F. int (length (sets F)))\<rparr>"

lemma cover_ok_mv: "cover_ok ext_mv g_mv"
  unfolding cover_ok_def
proof (intro allI ballI impI)
  fix B :: "nat set list" and row assume row: "row \<in> set B" "row \<noteq> {}"
  let ?out = "var_mask g_mv (output_var g_mv)"
  let ?X = "do_sm_minimum_cover ext_mv (unravel_output ext_mv B)"
  have X: "smallest_input row \<subseteq> ?X" using row(1) by (auto simp: ext_mv_def)
  show "(row - ?out) \<inter> ?X \<noteq> {} \<or> (row \<inter> ?out \<noteq> {} \<and> row \<inter> ?out \<subseteq> ?X)"
  proof (cases "find (\<lambda>x. x \<in> row - ?out) [0 ..< cube_size g_mv]")
    case (Some x)
    then have "x \<in> row - ?out" by (auto simp: find_Some_iff)
    moreover have "x \<in> ?X" using X Some by (simp add: smallest_input_def)
    ultimately show ?thesis by blast
  next
    case None
    then have "row \<subseteq> ?X" using X by (simp add: smallest_input_def)
    with row(2) show ?thesis by blast
  qed
qed

lemma sort_ok_mv: "sort_ok ext_mv"
  by (simp add: sort_ok_def ext_mv_def)

theorem expand_mv_inputs_not_orthogonal:
  "wf_cube g_mv \<and> \<not> binary_inputs g_mv \<and> cover_ok ext_mv g_mv \<and> sort_ok ext_mv \<and>
   valid_cube g_mv {2, 5, 6} \<and> valid_cube g_mv {0, 1, 3, 4, 6} \<and>
   \<not> cdist0 g_mv {2, 5, 6} {0, 1, 3, 4, 6} \<and>
   mincov_rows g_mv \<lparr>sets = [\<lparr>bits = {0, 1, 3, 4, 6}, flags = {ACTIVE}\<rparr>], active_count = 1\<rparr> {2, 5, 6}
     = [{0, 1, 3, 4}] \<and>
   do_sm_minimum_cover ext_mv (unravel_output ext_mv [{0, 1, 3, 4}]) = {0} \<and>
   expand ext_mv g_mv (cover_of [{2, 5, 6}]) (cover_of [{0, 1, 3, 4, 6}]) False =
     Inr (\<lparr>sets = [\<lparr>bits = {1, 2, 3, 4, 5, 6, 7}, flags = {PRIME, ACTIVE, NONESSEN}\<rparr>], active_count = 1\<rparr>,
          \<lparr>sets = [\<lparr>bits = {0, 1, 3, 4, 6}, flags = {ACTIVE}\<rparr>], active_count = 0\<rparr>) \<and>
   cdist0 g_mv {1, 2, 3, 4, 5, 6, 7} {0, 1, 3, 4, 6} \<and>
   expand ext_mv g_mv (cover_of [{2, 5, 6}]) (cover_of [{0, 1, 3, 4, 6}]) True =
     Inr (\<lparr>sets = [\<lparr>bits = {1, 2, 3, 4, 5, 6}, flags = {PRIME, ACTIVE, NONESSEN}\<rparr>], active_count = 1\<rparr>,
          \<lparr>sets = [\<lparr>bits = {0, 1, 3, 4, 6}, flags = {ACTIVE}\<rparr>], active_count = 0\<rparr>) \<and>
   cdist0 g_mv {1, 2, 3, 4, 5, 6} {0, 1, 3, 4, 6}"
proof -
  have "wf_cube g_mv \<and> \<not> binary_inputs g_mv \<and>
   valid_cube g_mv {2, 5, 6} \<and> valid_cube g_mv {0, 1, 3, 4, 6} \<and>
   \<not> cdist0 g_mv {2, 5, 6} {0, 1, 3, 4, 6} \<and>
   mincov_rows g_mv \<lparr>sets = [\<lparr>bits = {0, 1, 3, 4, 6}, flags = {ACTIVE}\<rparr>], active_count = 1\<rparr> {2, 5, 6}
     = [{0, 1, 3, 4}] \<and>
   do_sm_minimum_cover ext_mv (unravel_output ext_mv [{0, 1, 3, 4}]) = {0} \<and>
   expand ext_mv g_mv (cover_of [{2, 5, 6}]) (cover_of [{0, 1, 3, 4, 6}]) False =
     Inr (\<lparr>sets = [\<lparr>bits = {1, 2, 3, 4, 5, 6, 7}, flags = {PRIME, ACTIVE, NONESSEN}\<rparr>], active_count = 1\<rparr>,
          \<lparr>sets = [\<lparr>bits = {0, 1, 3, 4, 6}, flags = {ACTIVE}\<rparr>], active_count = 0\<rparr>) \<and>
   cdist0 g_mv {1, 2, 3, 4, 5, 6, 7} {0, 1, 3, 4, 6} \<and>
   expand ext_mv g_mv (cover_of [{2, 5, 6}]) (cover_of [{0, 1, 3, 4, 6}]) True =
     Inr (\<lparr>sets = [\<lparr>bits = {1, 2, 3, 4, 5, 6}, flags = {PRIME, ACTIVE, NONESSEN}\<rparr>], active_count = 1\<rparr>,
          \<lparr>sets = [\<lparr>bits = {0, 1, 3, 4, 6}, flags = {ACTIVE}\<rparr>], active_count = 0\<rparr>) \<and>
   cdist0 g_mv {1, 2, 3, 4, 5, 6} {0, 1, 3, 4, 6}"
    by code_simp
  with cover_ok_mv sort_ok_mv show ?thesis by simp
qed

theorem expand_orthogonal_witness:
  "\<not> cdist0 g_ex {0, 1, 3, 4, 5} {0, 2, 4} \<and> \<not> cdist0 g_ex {0, 1, 2, 3, 5} {0, 2, 4}"
  using expand_orthogonal[OF wf_g_ex binary_g_ex cover_ok_ex sort_ok_ex F_c3_valid F_c3_orth expand_c3]
  by (simp add: F_c3_expanded_def R_c3_def cover_of_def)

section \<open>Primality\<close>

text \<open>
  Claim C2, as amended. Every cube of the cover returned by \<open>expand\<close> carries
  \<open>PRIME\<close>, and so does the cube that \<open>expand1\<close> writes back. For the cube written
  back by \<open>expand1\<close>: every part outside it is a part of \<open>INIT_LOWER\<close>, or was still in
  \<open>FREESET\<close> when the covering loop ended (and then was dropped by \<open>mincov\<close>, which
  runs only while \<open>BB\<close> has active cubes), or cannot be added to the cube without
  intersecting a cube of \<open>BB\<close>.
\<close>

theorem expand_prime_and_blocked:
  assumes "sort_ok ext" "\<forall>p\<in>set (sets F). bits p \<subseteq> fullset g"
    and "i < length (sets CC)" "\<forall>p\<in>set (sets CC). bits p \<subseteq> fullset g"
  shows "(expand ext g F R nonsparse = Inr (F', R') \<longrightarrow> (\<forall>c\<in>set (sets F'). TESTP c PRIME)) \<and>
         (expand1 ext g BB CC INIT_LOWER i = Inr (BB', CC') \<longrightarrow>
            TESTP (sets CC' ! i) PRIME \<and>
            (\<exists>BB3 CC3 RAISE3 FREESET3.
               before_mincov g BB CC INIT_LOWER i = Inr (BB3, CC3, RAISE3, FREESET3) \<and>
               RAISE3 \<subseteq> bits (sets CC' ! i) \<and> bits (sets CC' ! i) \<subseteq> RAISE3 \<union> FREESET3 \<and>
               (\<not> active_count BB3 > 0 \<longrightarrow> bits (sets CC' ! i) = RAISE3 \<union> FREESET3) \<and>
               (\<forall>q\<in>fullset g - (RAISE3 \<union> FREESET3) - INIT_LOWER.
                  \<exists>r\<in>set (sets BB). cdist0 g (bits r) (insert q (bits (sets CC' ! i))))))"
proof (intro conjI impI)
  assume e: "expand ext g F R nonsparse = Inr (F', R')"
  have "set (sets (mini_sort ext F)) = set (sets F)" using assms(1) by (simp add: sort_ok_def)
  with assms(2) have "\<forall>p\<in>set (sets (mini_sort ext F)). bits p \<subseteq> fullset g" by simp
  from expand_prime_flags[OF e this] show "\<forall>c\<in>set (sets F'). TESTP c PRIME" by blast
next
  assume e: "expand1 ext g BB CC INIT_LOWER i = Inr (BB', CC')"
  from expand1_props(1)[OF assms(3,4) e] show "TESTP (sets CC' ! i) PRIME"
    by (simp add: expanded_def)
next
  assume e: "expand1 ext g BB CC INIT_LOWER i = Inr (BB', CC')"
  from expand1_unfold[OF e] obtain BB1 CC1 R1 F1 BB2 CC2 R2 F2 S2 n2 BB3 CC3 R3 F3 BB4 R4 F4 c2 where
    u: "expand1_start g BB CC INIT_LOWER i = Inr (BB1, CC1, R1, F1)"
    "(if active_count CC1 > 0 then select_feasible g BB1 CC1 R1 F1 (bits (sets CC ! i)) 0
      else Inr (BB1, CC1, R1, F1, bits (sets CC ! i), 0)) = Inr (BB2, CC2, R2, F2, S2, n2)"
    "cover_loop g BB2 CC2 R2 F2 = Inr (BB3, CC3, R3, F3)"
    "mincov_loop ext g BB3 R3 F3 = Inr (BB4, R4, F4)"
    "BB' = BB4" "CC' = CC3\<lparr>sets := (sets CC3)[i := c2]\<rparr>"
    "bits c2 = R4 \<union> F4"
    by metis
  have bm: "before_mincov g BB CC INIT_LOWER i = Inr (BB3, CC3, R3, F3)"
    using u(1,2,3) by (simp add: before_mincov_def)
  note ph = expand1_phases[OF assms(3,4) u(1,2,3,4)]
  have l3: "length (sets CC3) = length (sets CC)" using ph(15) by (simp add: cc_started_def)
  have fin: "bits (sets CC' ! i) = R4 \<union> F4" using u(6,7) assms(3) l3 by simp
  have a: "R3 \<subseteq> bits (sets CC' ! i)" "bits (sets CC' ! i) \<subseteq> R3 \<union> F3"
    using fin ph(4,11) by auto
  have b: "bits (sets CC' ! i) = R3 \<union> F3" if "\<not> active_count BB3 > 0"
    using that u(4) fin by (simp add: mincov_loop.simps[of ext g BB3])
  have bb: "map bits (sets BB3) = map bits (sets BB)"
  proof -
    from expand1_start_props(5)[OF assms(3,4) u(1)] have 1: "map bits (sets BB1) = map bits (sets BB)" .
    from select_phase_inv[OF expand1_start_props(1)[OF assms(3,4) u(1)] u(2)]
    have 2: "raise_inv g BB2 CC2 R2 F2" "map bits (sets BB2) = map bits (sets BB1)" by auto
    from cover_loop_inv[OF 2(1) u(3)] have "map bits (sets BB3) = map bits (sets BB2)" by simp
    with 1 2(2) show ?thesis by simp
  qed
  have s: "R3 \<union> F3 \<subseteq> bits (sets CC' ! i) \<union> (F3 - bits (sets CC' ! i))" using a(1) by auto
  have "lowered_blocked g BB INIT_LOWER (bits (sets CC' ! i)) (F3 - bits (sets CC' ! i))"
    by (rule lowered_blocked_step[OF before_mincov_blocked[OF bm] a(1) s bb[symmetric]])
  then have c: "\<forall>q\<in>fullset g - (R3 \<union> F3) - INIT_LOWER.
                  \<exists>r\<in>set (sets BB). cdist0 g (bits r) (insert q (bits (sets CC' ! i)))"
    unfolding lowered_blocked_def using a by auto
  from bm a b c show "\<exists>BB3 CC3 RAISE3 FREESET3.
               before_mincov g BB CC INIT_LOWER i = Inr (BB3, CC3, RAISE3, FREESET3) \<and>
               RAISE3 \<subseteq> bits (sets CC' ! i) \<and> bits (sets CC' ! i) \<subseteq> RAISE3 \<union> FREESET3 \<and>
               (\<not> active_count BB3 > 0 \<longrightarrow> bits (sets CC' ! i) = RAISE3 \<union> FREESET3) \<and>
               (\<forall>q\<in>fullset g - (RAISE3 \<union> FREESET3) - INIT_LOWER.
                  \<exists>r\<in>set (sets BB). cdist0 g (bits r) (insert q (bits (sets CC' ! i))))"
    by blast
qed

text \<open>
  The claim as stated fails for \<open>nonsparse = TRUE\<close>, where \<open>INIT_LOWER\<close> holds the parts
  of the output variable: the cube \<open>{1, 3, 5}\<close> expands to \<open>{1, 2, 3, 5}\<close>, and adding
  the output part 4 to it does not make it intersect the only cube of \<open>R\<close>.
\<close>

theorem nonsparse_cube_not_maximal:
  "valid_cube g_ex {1, 3, 5} \<and> valid_cube g_ex {0, 2, 3, 5} \<and> \<not> cdist0 g_ex {1, 3, 5} {0, 2, 3, 5} \<and>
   expand ext_ex g_ex (cover_of [{1, 3, 5}]) (cover_of [{0, 2, 3, 5}]) True =
     Inr (\<lparr>sets = [\<lparr>bits = {1, 2, 3, 5}, flags = {ACTIVE, PRIME}\<rparr>], active_count = 1\<rparr>,
          \<lparr>sets = [\<lparr>bits = {0, 2, 3, 5}, flags = {}\<rparr>], active_count = 0\<rparr>) \<and>
   4 \<in> fullset g_ex \<and> 4 \<notin> {1, 2, 3, 5 :: nat} \<and>
   \<not> cdist0 g_ex {0, 2, 3, 5} (insert 4 {1, 2, 3, 5})"
  by code_simp

theorem expand_prime_and_blocked_witness:
  "list_all (\<lambda>c. TESTP c PRIME) (sets F_c3_expanded) \<and>
   cdist0 g_ex {0, 2, 4} (insert 2 {0, 1, 3, 4, 5})"
proof -
  note t = expand_prime_and_blocked[OF sort_ok_ex F_c3_inside i0_c3 F_c3_inside,
      where R = R_c3 and nonsparse = False and F' = F_c3_expanded and R' = R_c3_after
        and BB = R_c3 and INIT_LOWER = "{}"
        and BB' = R_c3_after and CC' = F_c3_first]
  from t expand_c3 have "\<forall>c\<in>set (sets F_c3_expanded). TESTP c PRIME" by blast
  then have p: "list_all (\<lambda>c. TESTP c PRIME) (sets F_c3_expanded)" by (simp add: list_all_iff)
  from t expand1_c3 before_mincov_c3 bits_c3(2)
  have "\<forall>q\<in>fullset g_ex - ({0, 1, 3, 4, 5} \<union> {}) - {}.
          \<exists>r\<in>set (sets R_c3). cdist0 g_ex (bits r) (insert q {0, 1, 3, 4, 5})"
    by simp
  moreover have "2 \<in> fullset g_ex - ({0, 1, 3, 4, 5} \<union> {}) - {}" by (simp add: fullset_def g_ex_def)
  ultimately have "\<exists>r\<in>set (sets R_c3). cdist0 g_ex (bits r) (insert 2 {0, 1, 3, 4, 5})" by blast
  then have "cdist0 g_ex {0, 2, 4} (insert 2 {0, 1, 3, 4, 5})" by (simp add: R_c3_def cover_of_def)
  with p show ?thesis by simp
qed

section \<open>Coverage\<close>

text \<open>
  Claim C4, as amended. Every cube of \<open>F\<close> lies inside a cube of the cover returned
  by \<open>expand(F, R, FALSE)\<close>, so every point covered by \<open>F\<close> is covered by the result.
  (The result may cover further points.)
\<close>

theorem expand_keeps_coverage:
  assumes "sort_ok ext" "\<forall>p\<in>set (sets F). bits p \<subseteq> fullset g"
    and "expand ext g F R False = Inr (F', R')"
  shows "(\<forall>p\<in>set (sets F). \<exists>c\<in>set (sets F'). bits p \<subseteq> bits c) \<and>
         (\<forall>x. is_point g x \<longrightarrow> covers F x \<longrightarrow> covers F' x)"
proof -
  let ?S = "mini_sort ext F"
  have S: "set (sets ?S) = set (sets F)" using assms(1) by (simp add: sort_ok_def)
  with assms(2) have sub: "\<forall>p\<in>set (sets ?S). bits p \<subseteq> fullset g" by simp
  from expand_result[OF assms(3) sub] obtain F3 :: pcover where
    t: "expand_post g ?S False F3"
    and r2: "sets F' = map (\<lambda>p. SET p ACTIVE) (filter (\<lambda>p. \<not> TESTP p COVERED) (sets F3))"
    by blast
  from t have r1: "length (sets F3) = length (sets ?S)"
    and r3: "\<And>j. j < length (sets F3) \<Longrightarrow> bits (sets ?S ! j) \<subseteq> bits (sets F3 ! j)"
    and r4: "\<And>j. j < length (sets F3) \<Longrightarrow> TESTP (sets F3 ! j) COVERED \<Longrightarrow>
        (\<exists>m<length (sets F3). TESTP (sets F3 ! m) PRIME \<and> \<not> TESTP (sets F3 ! m) COVERED \<and>
            bits (sets F3 ! j) \<subseteq> bits (sets F3 ! m))"
    unfolding expand_post_def by blast+
  have a: "\<exists>c\<in>set (sets F'). bits p \<subseteq> bits c" if "p \<in> set (sets F)" for p
  proof -
    from that S obtain j where j: "j < length (sets ?S)" "p = sets ?S ! j"
      by (metis in_set_conv_nth)
    with r1 r3[of j] have pj: "bits p \<subseteq> bits (sets F3 ! j)" "j < length (sets F3)" by auto
    show ?thesis
    proof (cases "TESTP (sets F3 ! j) COVERED")
      case False
      with pj have "SET (sets F3 ! j) ACTIVE \<in> set (sets F')" by (simp add: r2)
      with pj show ?thesis by (intro bexI[of _ "SET (sets F3 ! j) ACTIVE"]) simp_all
    next
      case True
      with r4[of j] pj obtain m where m: "m < length (sets F3)" "\<not> TESTP (sets F3 ! m) COVERED"
        "bits (sets F3 ! j) \<subseteq> bits (sets F3 ! m)" by blast
      then have "SET (sets F3 ! m) ACTIVE \<in> set (sets F')" by (simp add: r2)
      with pj m show ?thesis by (intro bexI[of _ "SET (sets F3 ! m) ACTIVE"]) auto
    qed
  qed
  then show ?thesis unfolding covers_def list_ex_iff by (meson order_trans)
qed

text \<open>
  The claim as stated fails: the point \<open>x0 = 0, x1 = 1\<close> of output 4 is not covered by
  \<open>F_c3\<close> and is covered by the expanded cover.
\<close>

theorem expand_covers_more:
  "expand ext_ex g_ex F_c3 R_c3 False = Inr (F_c3_expanded, R_c3_after) \<and>
   is_point g_ex [0, 3, 4] \<and> covers F_c3_expanded [0, 3, 4] \<and> \<not> covers F_c3 [0, 3, 4]"
  by code_simp

theorem expand_keeps_coverage_witness:
  "is_point g_ex [1, 3, 4] \<and> covers F_c3 [1, 3, 4] \<and> covers F_c3_expanded [1, 3, 4]"
proof -
  have a: "is_point g_ex [1, 3, 4]" "covers F_c3 [1, 3, 4]" by code_simp+
  with expand_keeps_coverage[OF sort_ok_ex F_c3_inside expand_c3] show ?thesis by blast
qed

section \<open>The output parts under \<open>nonsparse\<close>\<close>

text \<open>
  Claim C5. In \<open>expand(F, R, TRUE)\<close> let \<open>F3\<close> be the cover at the end of the main loop,
  of which the returned cover keeps the cubes without \<open>COVERED\<close>. Position by position,
  a cube of \<open>F3\<close> contains the cube of the sorted \<open>F\<close> and has the same parts of the
  output variable.
\<close>

theorem expand_nonsparse_output:
  assumes "\<forall>p\<in>set (sets (mini_sort ext F)). bits p \<subseteq> fullset g"
    and "expand ext g F R True = Inr (F', R')"
  shows "\<exists>F3::pcover. length (sets F3) = length (sets (mini_sort ext F)) \<and>
           sets F' = map (\<lambda>p. SET p ACTIVE) (filter (\<lambda>p. \<not> TESTP p COVERED) (sets F3)) \<and>
           (\<forall>j<length (sets F3).
              bits (sets (mini_sort ext F) ! j) \<subseteq> bits (sets F3 ! j) \<and>
              bits (sets F3 ! j) \<inter> var_mask g (output_var g)
                = bits (sets (mini_sort ext F) ! j) \<inter> var_mask g (output_var g))"
proof -
  from expand_result[OF assms(2,1)] obtain F3 :: pcover where
    t: "expand_post g (mini_sort ext F) True F3"
    and r: "sets F' = map (\<lambda>p. SET p ACTIVE) (filter (\<lambda>p. \<not> TESTP p COVERED) (sets F3))"
    by blast
  from t have "length (sets F3) = length (sets (mini_sort ext F)) \<and>
           (\<forall>j<length (sets F3).
              bits (sets (mini_sort ext F) ! j) \<subseteq> bits (sets F3 ! j) \<and>
              bits (sets F3 ! j) \<inter> var_mask g (output_var g)
                = bits (sets (mini_sort ext F) ! j) \<inter> var_mask g (output_var g))"
    unfolding expand_post_def by blast
  with r show ?thesis by blast
qed

theorem expand_nonsparse_output_witness:
  "\<exists>F3::pcover. length (sets F3) = length (sets (mini_sort ext_ex F_c3)) \<and>
      sets F_c3_nonsparse = map (\<lambda>p. SET p ACTIVE) (filter (\<lambda>p. \<not> TESTP p COVERED) (sets F3)) \<and>
      (\<forall>j<length (sets F3).
         bits (sets (mini_sort ext_ex F_c3) ! j) \<subseteq> bits (sets F3 ! j) \<and>
         bits (sets F3 ! j) \<inter> var_mask g_ex (output_var g_ex)
           = bits (sets (mini_sort ext_ex F_c3) ! j) \<inter> var_mask g_ex (output_var g_ex))"
  by (rule expand_nonsparse_output[OF sorted_c3_inside expand_c3_ns])

section \<open>Idempotence\<close>

text \<open>
  Claim C7. When \<open>expand(F, R, FALSE)\<close> returns \<open>F'\<close>, then \<open>expand(F', R2, FALSE)\<close>
  returns, for every OFF-set \<open>R2\<close> (the \<open>R\<close> of the first call included, before or
  after that call), one and the same cover, which has the set of cubes of \<open>F'\<close>, flags aside.
\<close>

theorem expand_idempotent:
  assumes "sort_ok ext" "\<forall>p\<in>set (sets F). bits p \<subseteq> fullset g"
    and "expand ext g F R False = Inr (F', R')"
  shows "\<exists>F''::pcover. (\<forall>R2. expand ext g F' R2 False = Inr (F'', R2)) \<and>
               bits ` set (sets F'') = bits ` set (sets F')"
proof -
  have S: "set (sets (mini_sort ext F)) = set (sets F)" using assms(1) by (simp add: sort_ok_def)
  with assms(2) have sub: "\<forall>p\<in>set (sets (mini_sort ext F)). bits p \<subseteq> fullset g" by simp
  note pf = expand_prime_flags[OF assms(3) sub]
  let ?S = "mini_sort ext F'"
  let ?F2 = "?S\<lparr>sets := map (\<lambda>p. RESET (RESET p COVERED) NONESSEN) (sets ?S)\<rparr>"
  have S': "set (sets ?S) = set (sets F')" using assms(1) by (simp add: sort_ok_def)
  have pr: "\<forall>i\<in>set [0 ..< length (sets ?F2)]. TESTP (sets ?F2 ! i) PRIME"
    using pf S' by (auto simp: all_set_conv_all_nth[symmetric])
  have ec: "expand_cubes ext g {} [0 ..< length (sets ?F2)] R2 ?F2 = Inr (R2, ?F2)" for R2
    by (rule expand_cubes_all_prime[OF pr])
  have nc: "\<not> list_ex (\<lambda>p. TESTP p COVERED) (sets ?F2)" by (auto simp: list_ex_iff)
  define F'' where "F'' = ?F2\<lparr>active_count := int (length (filter (\<lambda>p. \<not> TESTP p COVERED) (sets ?F2))),
                         sets := map (\<lambda>p. if TESTP p COVERED then RESET p ACTIVE else SET p ACTIVE)
                                   (sets ?F2)\<rparr>"
  have "\<forall>R2. expand ext g F' R2 False = Inr (F'', R2)"
    using ec nc by (simp add: expand_def Let_def F''_def)
  moreover have "bits ` set (sets F'') = bits ` set (sets F')"
    using S' by (auto simp: F''_def image_iff)
  ultimately show ?thesis by blast
qed

theorem expand_idempotent_witness:
  "\<exists>F''::pcover. (\<forall>R2. expand ext_ex g_ex F_c3_expanded R2 False = Inr (F'', R2)) \<and>
      bits ` set (sets F'') = bits ` set (sets F_c3_expanded)"
  by (rule expand_idempotent[OF sort_ok_ex F_c3_inside expand_c3])

section \<open>\<open>RAISE\<close> and \<open>FREESET\<close> during \<open>expand1\<close>\<close>



section \<open>The loop of \<open>make_sparse\<close>\<close>

text \<open>
  Claim C8, what the code does. \<open>make_sparse\<close> terminates after at most one round:
  it returns the result of the first \<open>mv_reduce\<close> when the indeterminate \<open>cost\<close>
  happens to equal the cost of \<open>F\<close>, and the result of the first \<open>expand\<close> otherwise.
  The costs of the covers it computes are never looked at.
\<close>

theorem make_sparse_single_round:
  "make_sparse ext g cost F D R =
     (if cost = cover_cost ext F then Inr (mv_reduce ext g F D)
      else (case expand ext g (mv_reduce ext g F D) R True of
              Inl e \<Rightarrow> Inl e
            | Inr (F2, R2) \<Rightarrow> Inr F2))"
  by (simp add: make_sparse_def make_sparse_loop.simps[of ext g cost "cover_cost ext F"] Let_def
      split: sum.splits)

text \<open>
  An instance of the external collaborators in which the cost counts the literals (the
  input variables in which a cube is not full, and its output parts) and
  \<open>mark_irredundant\<close> finds the cubes that lie inside another single cube.
\<close>

definition literal_cost :: "cube_struct \<Rightarrow> pcover \<Rightarrow> int" where
  "literal_cost g F =
     sum_list (map (\<lambda>p. int (length (filter (\<lambda>v. v \<noteq> output_var g \<and> \<not> var_mask g v \<subseteq> bits p)
                                       [0 ..< num_vars g]))
                        + int (card (bits p \<inter> var_mask g (output_var g))))
                   (sets F))"

definition mark_contained :: "pcover \<Rightarrow> pcover \<Rightarrow> pcover" where
  "mark_contained F1 D1 =
     F1\<lparr>sets := map (\<lambda>k. if list_ex (\<lambda>m. m \<noteq> k \<and> bits (sets F1 ! k) \<subseteq> bits (sets F1 ! m) \<and>
                                         (bits (sets F1 ! k) \<noteq> bits (sets F1 ! m) \<or> m < k))
                                  [0 ..< length (sets F1)]
                            \<or> list_ex (\<lambda>d. bits (sets F1 ! k) \<subseteq> bits d) (sets D1)
                          then RESET (sets F1 ! k) ACTIVE else SET (sets F1 ! k) ACTIVE)
                     [0 ..< length (sets F1)]\<rparr>"

definition ext_c8 :: extern where
  "ext_c8 = \<lparr>mini_sort = (\<lambda>F. F), unravel_output = (\<lambda>B. B),
             do_sm_minimum_cover = (\<lambda>B. \<Union> (set B)),
             mark_irredundant = mark_contained,
             cover_cost = literal_cost g_ex\<rparr>"

definition F_c8 :: pcover where
  "F_c8 = \<lparr>sets = [\<lparr>bits = {1, 3, 4, 5}, flags = {ACTIVE}\<rparr>, \<lparr>bits = {1, 2, 4}, flags = {ACTIVE}\<rparr>],
           active_count = 2\<rparr>"

definition R_c8 :: pcover where
  "R_c8 = cover_of [{0, 2, 3, 4}, {0, 2, 3, 5}, {1, 2, 5}]"

definition F_c8_expanded :: pcover where
  "F_c8_expanded =
     \<lparr>sets = [\<lparr>bits = {1, 3, 4, 5}, flags = {ACTIVE, PRIME}\<rparr>,
              \<lparr>bits = {1, 2, 3, 4}, flags = {ACTIVE, PRIME}\<rparr>], active_count = 2\<rparr>"

definition F_c8_reduced :: pcover where
  "F_c8_reduced =
     \<lparr>sets = [\<lparr>bits = {1, 3, 5}, flags = {ACTIVE}\<rparr>,
              \<lparr>bits = {1, 2, 3, 4}, flags = {ACTIVE, PRIME}\<rparr>], active_count = 2\<rparr>"

text \<open>
  With it \<open>make_sparse\<close> returns a cover of cost 6 that one more \<open>mv_reduce\<close> brings
  to cost 5; and when \<open>cost\<close> starts as 7, the cost of the input, the input comes back
  unexpanded.
\<close>

theorem make_sparse_stops_early:
  "make_sparse ext_c8 g_ex 0 F_c8 (cover_of []) R_c8 = Inr F_c8_expanded \<and>
   mv_reduce ext_c8 g_ex F_c8_expanded (cover_of []) = F_c8_reduced \<and>
   cover_cost ext_c8 F_c8_expanded = 6 \<and> cover_cost ext_c8 F_c8_reduced = 5 \<and>
   make_sparse ext_c8 g_ex 7 F_c8 (cover_of []) R_c8 = Inr F_c8 \<and>
   cover_cost ext_c8 F_c8 = 7"
proof -
  have a: "cover_cost ext_c8 F_c8 = 7" by code_simp
  have b: "expand ext_c8 g_ex (mv_reduce ext_c8 g_ex F_c8 (cover_of [])) R_c8 True
             = Inr (F_c8_expanded, \<lparr>sets = sets R_c8, active_count = 0\<rparr>)" by code_simp
  have c: "mv_reduce ext_c8 g_ex F_c8 (cover_of []) = F_c8" by code_simp
  have d: "mv_reduce ext_c8 g_ex F_c8_expanded (cover_of []) = F_c8_reduced"
    "cover_cost ext_c8 F_c8_expanded = 6" "cover_cost ext_c8 F_c8_reduced = 5" by code_simp+
  from make_sparse_single_round[of ext_c8 g_ex 0 F_c8 "cover_of []" R_c8]
       make_sparse_single_round[of ext_c8 g_ex 7 F_c8 "cover_of []" R_c8] a b c d
  show ?thesis by simp
qed

end
